theory Spec2Isabelle
  imports Main "HOL-Library.AList" "HOL-Library.Word"
begin

section \<open>The program generator of PCCoder: \<^verbatim>\<open>scripts/gen_programs.py\<close>\<close>

text \<open>
  The development follows the script top down: the types of the DSL, the enumeration of
  input-type signatures, the quota of the dataset builder, the deduplication worker and
  the merge of a batch, the cache loader, the test sampling, and the enumerator
  (\<^verbatim>\<open>gen_program_worker\<close>) with its restart loop.
\<close>

subsection \<open>Types of the DSL\<close>

text \<open>
  Modelled from the spec: module \<^verbatim>\<open>dsl.types\<close> is not among the sources. A slot of
  an input-type signature is LIST-of-int or scalar-int; the types of higher-order slots,
  which only library lambda functions can fill, are kept opaque and told apart by a tag.
  The constants \<^verbatim>\<open>INT\<close> and \<^verbatim>\<open>LIST\<close> of the source are \<open>TINT\<close> and \<open>TLIST\<close> here.
\<close>

datatype dsl_type = TINT | TLIST | THIGHER nat

subsection \<open>Input-type signatures\<close>

text \<open>
  \<^verbatim>\<open>
  def get_input_type_combinations(num_inputs):
      input_type_combinations = []
      for num_inputs in range(1, num_inputs + 1):
          # no valid program takes only ints.
          for num_list in range(1, num_inputs + 1):
              input_types = [LIST] * num_list + [INT] * (num_inputs - num_list)
              input_type_combinations.append(input_types)
      return input_type_combinations
  \<close>
  The outer loop variable shadows the parameter; the range of the outer loop is computed
  from the parameter before the first iteration. Python integers are unbounded, a
  sequence repeated a negative number of times is empty.
\<close>

definition input_types_of :: "int \<Rightarrow> int \<Rightarrow> dsl_type list" where
  "input_types_of num_inputs num_list =
     replicate (nat num_list) TLIST @ replicate (nat (num_inputs - num_list)) TINT"

definition get_input_type_combinations :: "int \<Rightarrow> dsl_type list list" where
  "get_input_type_combinations num_inputs =
     concat (map (\<lambda>n. map (input_types_of n) [1..n]) [1..num_inputs])"

subsection \<open>The quota of one length\<close>

text \<open>
  \<^verbatim>\<open>
  KNOWN_TRAIN_SIZES = {1: 47, 2: 2883}
  ...
      num_programs = args.num_train + args.num_test
      if program_len in KNOWN_TRAIN_SIZES:
          num_programs = min(num_programs, KNOWN_TRAIN_SIZES[program_len])
  \<close>
\<close>

definition KNOWN_TRAIN_SIZES :: "int \<rightharpoonup> int" where
  "KNOWN_TRAIN_SIZES = [1 \<mapsto> 47, 2 \<mapsto> 2883]"

definition quota :: "int \<Rightarrow> int \<Rightarrow> int \<Rightarrow> int" where
  "quota num_train num_test program_len =
     (let num_programs = num_train + num_test in
      case KNOWN_TRAIN_SIZES program_len of
        Some known \<Rightarrow> min num_programs known
      | None \<Rightarrow> num_programs)"

subsection \<open>Programs\<close>

text \<open>
  Modelled from the spec: the modules \<^verbatim>\<open>dsl.program\<close>, \<^verbatim>\<open>dsl.impl\<close>, \<^verbatim>\<open>dsl.example\<close> and
  \<^verbatim>\<open>env.statement\<close> are not among the sources. A function of the catalog has a typed
  argument-slot signature, which the script reads as \<^verbatim>\<open>function.input_type\<close> (a tuple of
  types, or one type), and a result type. A library lambda function has a type
  (\<^verbatim>\<open>func.type\<close>). A Statement is a function reference with an ordered tuple of argument
  sources, each a variable index or a lambda. A Program is an ordered input-type
  signature with an ordered sequence of Statements, and is equal to another when both
  agree in signature and statement sequence; its length (\<^verbatim>\<open>len(program)\<close>) is its number of
  statements. An Example is an assignment of values to the inputs with the output.
\<close>

datatype func_input = Single dsl_type | Tuple "dsl_type list"

record func =
  func_name :: string
  input_type :: func_input
  output_type :: dsl_type

record lambda_func =
  lambda_name :: string
  lambda_type :: dsl_type

datatype arg = Var nat | Lambda lambda_func

type_synonym statement = "func \<times> arg list"

record program =
  input_types :: "dsl_type list"
  statements :: "statement list"

datatype val = IntVal int | ListVal "int list"

type_synonym example = "val list \<times> val"

definition len :: "program \<Rightarrow> nat" where
  "len p = length (statements p)"

subsection \<open>Dictionaries and exceptions\<close>

text \<open>
  A Python dictionary keeps its keys in insertion order: it is an association list with
  distinct keys. Assigning to a present key replaces the value in place, assigning to a
  new key appends the entry (\<open>AList.update\<close>); \<^verbatim>\<open>del d[k]\<close> is \<open>AList.delete\<close>; reading
  a missing key raises \<^verbatim>\<open>KeyError\<close>. Exceptions are values: a function that can raise
  returns \<open>Inl\<close> of the exception.
\<close>

datatype py_error = KeyError | ValueError | JSONDecodeError | ParseError

type_synonym ('k, 'v) dict = "('k \<times> 'v) list"

definition getitem :: "('k, 'v) dict \<Rightarrow> 'k \<Rightarrow> py_error + 'v" where
  "getitem d k = (case map_of d k of None \<Rightarrow> Inl KeyError | Some v \<Rightarrow> Inr v)"

definition dict_update :: "('k, 'v) dict \<Rightarrow> ('k, 'v) dict \<Rightarrow> ('k, 'v) dict" where
  "dict_update examples d = fold (\<lambda>(k, v). AList.update k v) d examples"

text \<open>A list comprehension whose body can raise stops at the first exception.\<close>

fun try_map :: "('a \<Rightarrow> py_error + 'b) \<Rightarrow> 'a list \<Rightarrow> py_error + 'b list" where
  "try_map f [] = Inr []"
| "try_map f (x # xs) =
     (case f x of
        Inl err \<Rightarrow> Inl err
      | Inr y \<Rightarrow> (case try_map f xs of Inl err \<Rightarrow> Inl err | Inr ys \<Rightarrow> Inr (y # ys)))"

text \<open>The slice \<^verbatim>\<open>xs[start::step]\<close> for a positive step.\<close>

function slice_step :: "'a list \<Rightarrow> nat \<Rightarrow> nat \<Rightarrow> 'a list" where
  "slice_step xs start step =
     (if start < length xs \<and> 0 < step then xs ! start # slice_step xs (start + step) step
      else [])"
  by pat_completeness auto
termination
  by (relation "measure (\<lambda>(xs, start, step). length xs - start)") auto

declare slice_step.simps [simp del]

subsection \<open>The deduplication worker\<close>

text \<open>
  \<^verbatim>\<open>
  def discard_identical_worker(new_examples):
      new_programs = list(new_examples.keys())
      for i, program in enumerate(new_programs):
          for other in existing_programs:
              if constraint.is_same(program, other, new_examples[program]):
                  del new_examples[program]
                  break
          print(...)
          progress_counter.value += 1
      return new_examples
  \<close>
  The Equivalence Oracle \<^verbatim>\<open>constraint.is_same\<close> is an external collaborator and a
  parameter here. The progress counter only feeds the progress line and is left out.
\<close>

fun discard_inner ::
  "('p \<Rightarrow> 'p \<Rightarrow> 'e \<Rightarrow> bool) \<Rightarrow> 'p \<Rightarrow> 'p list \<Rightarrow> ('p, 'e) dict \<Rightarrow> py_error + ('p, 'e) dict"
where
  "discard_inner is_same program [] new_examples = Inr new_examples"
| "discard_inner is_same program (other # rest) new_examples =
     (case getitem new_examples program of
        Inl err \<Rightarrow> Inl err
      | Inr ex \<Rightarrow>
          if is_same program other ex then Inr (AList.delete program new_examples)
          else discard_inner is_same program rest new_examples)"

fun discard_outer ::
  "('p \<Rightarrow> 'p \<Rightarrow> 'e \<Rightarrow> bool) \<Rightarrow> 'p list \<Rightarrow> 'p list \<Rightarrow> ('p, 'e) dict \<Rightarrow> py_error + ('p, 'e) dict"
where
  "discard_outer is_same existing_programs [] new_examples = Inr new_examples"
| "discard_outer is_same existing_programs (program # rest) new_examples =
     (case discard_inner is_same program existing_programs new_examples of
        Inl err \<Rightarrow> Inl err
      | Inr new_examples' \<Rightarrow> discard_outer is_same existing_programs rest new_examples')"

definition discard_identical_worker ::
  "('p \<Rightarrow> 'p \<Rightarrow> 'e \<Rightarrow> bool) \<Rightarrow> 'p list \<Rightarrow> ('p, 'e) dict \<Rightarrow> py_error + ('p, 'e) dict"
where
  "discard_identical_worker is_same existing_programs new_examples =
     discard_outer is_same existing_programs (map fst new_examples) new_examples"

subsection \<open>Merging one batch into the corpus\<close>

text \<open>
  \<^verbatim>\<open>
        existing_programs = list(examples.keys())
        new_programs = list(new_examples.keys())
        discard_pool = multiprocessing.Pool(processes=args.num_workers, ...)
        new_program_parts = [new_programs[i::args.num_workers] for i in range(args.num_workers)]
        new_example_parts = [{p: new_examples[p] for p in programs} for programs in new_program_parts]
        res = discard_pool.map(discard_identical_worker, new_example_parts)
        for d in res:
            examples.update(d)
  \<close>
  \<^verbatim>\<open>args.num_workers\<close> is an integer of the command line. \<^verbatim>\<open>multiprocessing.Pool\<close> raises
  \<^verbatim>\<open>ValueError\<close> when it is asked for fewer than one process; past the pool the number of
  workers is positive, and is the number of slices and their step. Each worker of the pool gets its own part and the same list of existing programs; the
  workers share nothing else, so the parallel map is a map.
\<close>

definition sub_dict :: "('k, 'v) dict \<Rightarrow> 'k list \<Rightarrow> py_error + ('k, 'v) dict" where
  "sub_dict new_examples programs =
     (case try_map (\<lambda>p. case getitem new_examples p of Inl err \<Rightarrow> Inl err | Inr v \<Rightarrow> Inr (p, v))
             programs of
        Inl err \<Rightarrow> Inl err
      | Inr items \<Rightarrow> Inr (dict_update [] items))"

definition merge_batch ::
  "('p \<Rightarrow> 'p \<Rightarrow> 'e \<Rightarrow> bool) \<Rightarrow> int \<Rightarrow> ('p, 'e) dict \<Rightarrow> ('p, 'e) dict \<Rightarrow> py_error + ('p, 'e) dict"
where
  "merge_batch is_same num_workers examples new_examples =
     (let existing_programs = map fst examples;
          new_programs = map fst new_examples
      in if num_workers < 1 then Inl ValueError
         else
           (let new_program_parts =
                  map (\<lambda>i. slice_step new_programs i (nat num_workers))
                    [0..<nat num_workers]
            in case try_map (sub_dict new_examples) new_program_parts of
                 Inl err \<Rightarrow> Inl err
               | Inr new_example_parts \<Rightarrow>
                   (case try_map (discard_identical_worker is_same existing_programs)
                           new_example_parts of
                      Inl err \<Rightarrow> Inl err
                    | Inr res \<Rightarrow>
                        Inr (fold (\<lambda>d examples. dict_update examples d) res examples))))"

text \<open>
  What the worker decides for one entry: whether the oracle, on the entry's own examples,
  judges its program the same as some existing program.
\<close>

definition identical_to_existing :: "('p \<Rightarrow> 'p \<Rightarrow> 'e \<Rightarrow> bool) \<Rightarrow> 'p list \<Rightarrow> 'p \<times> 'e \<Rightarrow> bool" where
  "identical_to_existing is_same existing_programs entry =
     (\<exists>other \<in> set existing_programs. is_same (fst entry) other (snd entry))"

definition not_identical ::
  "('p \<Rightarrow> 'p \<Rightarrow> 'e \<Rightarrow> bool) \<Rightarrow> 'p list \<Rightarrow> ('p, 'e) dict \<Rightarrow> ('p, 'e) dict" where
  "not_identical is_same existing_programs new_examples =
     filter (\<lambda>entry. \<not> identical_to_existing is_same existing_programs entry) new_examples"

subsection \<open>Loading a cache\<close>

text \<open>
  \<^verbatim>\<open>
  def load_cache(path):
      lines = [json.loads(x) for x in open(path, 'r').readlines()]
      examples = {}
      for i, line in enumerate(lines):
          program = Program.parse(line['program'])
          p_examples = Example.from_line(line)
          p_examples = [(ex.inputs, ex.output) for ex in p_examples]
          examples[program] = p_examples
      return examples
  \<close>
  The decoders are external: \<open>json_loads\<close> for \<^verbatim>\<open>json.loads\<close>, \<open>program_parse\<close> for
  \<^verbatim>\<open>Program.parse(line['program'])\<close> and \<open>example_from_line\<close> for \<^verbatim>\<open>Example.from_line\<close> with
  the conversion to pairs. Each returns \<open>Inl\<close> where the Python raises. The argument
  \<open>file_lines\<close> is what \<^verbatim>\<open>readlines()\<close> returned. No exception is caught in \<^verbatim>\<open>load_cache\<close>.
\<close>

fun load_lines ::
  "('j \<Rightarrow> py_error + program) \<Rightarrow> ('j \<Rightarrow> py_error + 'e) \<Rightarrow> 'j list \<Rightarrow>
   (program, 'e) dict \<Rightarrow> py_error + (program, 'e) dict"
where
  "load_lines program_parse example_from_line [] examples = Inr examples"
| "load_lines program_parse example_from_line (line # rest) examples =
     (case program_parse line of
        Inl err \<Rightarrow> Inl err
      | Inr program \<Rightarrow>
          (case example_from_line line of
             Inl err \<Rightarrow> Inl err
           | Inr p_examples \<Rightarrow>
               load_lines program_parse example_from_line rest
                 (AList.update program p_examples examples)))"

definition load_cache ::
  "(string \<Rightarrow> py_error + 'j) \<Rightarrow> ('j \<Rightarrow> py_error + program) \<Rightarrow> ('j \<Rightarrow> py_error + 'e) \<Rightarrow>
   string list \<Rightarrow> py_error + (program, 'e) dict"
where
  "load_cache json_loads program_parse example_from_line file_lines =
     (case try_map json_loads file_lines of
        Inl err \<Rightarrow> Inl err
      | Inr lines \<Rightarrow> load_lines program_parse example_from_line lines [])"

text \<open>A persisted record is malformed when one of the three decoders raises on it.\<close>

definition malformed ::
  "(string \<Rightarrow> py_error + 'j) \<Rightarrow> ('j \<Rightarrow> py_error + program) \<Rightarrow> ('j \<Rightarrow> py_error + 'e) \<Rightarrow>
   string \<Rightarrow> bool" where
  "malformed json_loads program_parse example_from_line x =
     (case json_loads x of
        Inl err \<Rightarrow> True
      | Inr line \<Rightarrow> isl (program_parse line) \<or> isl (example_from_line line))"

subsection \<open>The per-length loop of the dataset builder\<close>

text \<open>
  \<^verbatim>\<open>
    if args.cache:
        examples = load_cache(args.cache)
        min_len = max([len(k) for k in examples])
    else:
        examples = {}
        min_len = 0

    for program_len in range(min_len + 1, args.max_train_len + 1):
        num_programs = args.num_train + args.num_test
        if program_len in KNOWN_TRAIN_SIZES:
            num_programs = min(num_programs, KNOWN_TRAIN_SIZES[program_len])
        new_examples = gen_programs(program_len, num_programs, args)
        ... (the merge of the batch, above)
  \<close>
  \<^verbatim>\<open>max\<close> of an empty list raises \<^verbatim>\<open>ValueError\<close>. The generation phase \<^verbatim>\<open>gen_programs\<close>
  runs the enumerator and the Example Oracle in process pools, with random choices; here
  it is the parameter \<open>gen_programs\<close>, which gives for a length and a quota the dictionary
  that the call returned. \<^verbatim>\<open>gen_programs\<close> creates its pools with the same \<^verbatim>\<open>args.num_workers\<close>
  as the merge does, so with fewer than one worker a pass through the loop ends in the
  \<^verbatim>\<open>ValueError\<close> that the merge returns here. \<^verbatim>\<open>main\<close> catches no exception, so an exception of
  the loader ends the run before the loop.
\<close>

definition py_max :: "int list \<Rightarrow> py_error + int" where
  "py_max xs = (case xs of [] \<Rightarrow> Inl ValueError | x # rest \<Rightarrow> Inr (fold max rest x))"

fun train_loop ::
  "(program \<Rightarrow> program \<Rightarrow> 'e \<Rightarrow> bool) \<Rightarrow> (int \<Rightarrow> int \<Rightarrow> (program, 'e) dict) \<Rightarrow>
   int \<Rightarrow> int \<Rightarrow> int \<Rightarrow> int list \<Rightarrow> (program, 'e) dict \<Rightarrow> py_error + (program, 'e) dict"
where
  "train_loop is_same gen_programs num_train num_test num_workers [] examples = Inr examples"
| "train_loop is_same gen_programs num_train num_test num_workers (program_len # rest) examples =
     (let num_programs = quota num_train num_test program_len;
          new_examples = gen_programs program_len num_programs
      in case merge_batch is_same num_workers examples new_examples of
           Inl err \<Rightarrow> Inl err
         | Inr examples' \<Rightarrow> train_loop is_same gen_programs num_train num_test num_workers rest examples')"

definition build_corpus ::
  "(program \<Rightarrow> program \<Rightarrow> 'e \<Rightarrow> bool) \<Rightarrow> (int \<Rightarrow> int \<Rightarrow> (program, 'e) dict) \<Rightarrow>
   (string \<Rightarrow> py_error + 'j) \<Rightarrow> ('j \<Rightarrow> py_error + program) \<Rightarrow> ('j \<Rightarrow> py_error + 'e) \<Rightarrow>
   int \<Rightarrow> int \<Rightarrow> int \<Rightarrow> int \<Rightarrow> string list option \<Rightarrow> py_error + (program, 'e) dict"
where
  "build_corpus is_same gen_programs json_loads program_parse example_from_line
        num_train num_test max_train_len num_workers cache =
     (case cache of
        Some file_lines \<Rightarrow>
          (case load_cache json_loads program_parse example_from_line file_lines of
             Inl err \<Rightarrow> Inl err
           | Inr examples \<Rightarrow>
               (case py_max (map (\<lambda>k. int (len k)) (map fst examples)) of
                  Inl err \<Rightarrow> Inl err
                | Inr min_len \<Rightarrow>
                    train_loop is_same gen_programs num_train num_test num_workers [min_len + 1..max_train_len]
                      examples))
      | None \<Rightarrow> train_loop is_same gen_programs num_train num_test num_workers [0 + 1..max_train_len] [])"

text \<open>
  What the enumerator guarantees of a batch (lemma \<open>gen_program_worker_len\<close> below is the
  reason): a dictionary whose programs all have the requested length.
\<close>

definition generates_lengths :: "(int \<Rightarrow> int \<Rightarrow> (program, 'e) dict) \<Rightarrow> bool" where
  "generates_lengths gen_programs =
     (\<forall>program_len num_programs.
        distinct (map fst (gen_programs program_len num_programs)) \<and>
        (\<forall>p \<in> fst ` set (gen_programs program_len num_programs). int (len p) = program_len))"

subsection \<open>Sampling the test programs of one length\<close>

text \<open>
  \<^verbatim>\<open>
        random.shuffle(test_candidates)
        indices_to_discard = set()
        for i, program in enumerate(test_candidates):
            if len(test_programs) >= args.num_test:
                break
            if i in indices_to_discard:
                continue
            test_programs.append(program)
            indices_to_discard.add(i)
            for j, other in enumerate(test_candidates[i+1:]):
                if j in indices_to_discard:
                    continue
                if constraint.is_same(program, other, examples[program]):
                    indices_to_discard.add(j)
        train_programs += [test_candidates[i] for i in range(len(test_candidates))
                           if i not in indices_to_discard]
  \<close>
  The argument \<open>test_candidates\<close> is the list after the shuffle. The inner loop
  enumerates the slice \<^verbatim>\<open>test_candidates[i+1:]\<close>, so its \<open>j\<close> counts from 0 at position
  \<open>i + 1\<close> of the list. The result is the list of test programs with the list of
  candidates that go back to the training pool.
\<close>

fun mark_same ::
  "(program \<Rightarrow> program \<Rightarrow> 'e \<Rightarrow> bool) \<Rightarrow> (program, 'e) dict \<Rightarrow> program \<Rightarrow>
   (nat \<times> program) list \<Rightarrow> nat set \<Rightarrow> py_error + nat set"
where
  "mark_same is_same examples program [] indices_to_discard = Inr indices_to_discard"
| "mark_same is_same examples program ((j, other) # rest) indices_to_discard =
     (if j \<in> indices_to_discard then mark_same is_same examples program rest indices_to_discard
      else
        case getitem examples program of
          Inl err \<Rightarrow> Inl err
        | Inr ex \<Rightarrow>
            if is_same program other ex
            then mark_same is_same examples program rest (insert j indices_to_discard)
            else mark_same is_same examples program rest indices_to_discard)"

fun sample_loop ::
  "(program \<Rightarrow> program \<Rightarrow> 'e \<Rightarrow> bool) \<Rightarrow> (program, 'e) dict \<Rightarrow> int \<Rightarrow> program list \<Rightarrow>
   (nat \<times> program) list \<Rightarrow> program list \<Rightarrow> nat set \<Rightarrow> py_error + program list \<times> nat set"
where
  "sample_loop is_same examples num_test test_candidates [] test_programs indices_to_discard =
     Inr (test_programs, indices_to_discard)"
| "sample_loop is_same examples num_test test_candidates ((i, program) # rest) test_programs
     indices_to_discard =
     (if num_test \<le> int (length test_programs) then Inr (test_programs, indices_to_discard)
      else if i \<in> indices_to_discard
      then sample_loop is_same examples num_test test_candidates rest test_programs
             indices_to_discard
      else
        case mark_same is_same examples program
               (List.enumerate 0 (drop (i + 1) test_candidates)) (insert i indices_to_discard) of
          Inl err \<Rightarrow> Inl err
        | Inr indices_to_discard' \<Rightarrow>
            sample_loop is_same examples num_test test_candidates rest
              (test_programs @ [program]) indices_to_discard')"

definition sample_test_programs ::
  "(program \<Rightarrow> program \<Rightarrow> 'e \<Rightarrow> bool) \<Rightarrow> (program, 'e) dict \<Rightarrow> int \<Rightarrow> program list \<Rightarrow>
   py_error + program list \<times> program list"
where
  "sample_test_programs is_same examples num_test test_candidates =
     (case sample_loop is_same examples num_test test_candidates
             (List.enumerate 0 test_candidates) [] {} of
        Inl err \<Rightarrow> Inl err
      | Inr (test_programs, indices_to_discard) \<Rightarrow>
          Inr (test_programs,
               map (nth test_candidates)
                 (filter (\<lambda>i. i \<notin> indices_to_discard) [0..<length test_candidates])))"

subsection \<open>Used, unused and free variable indices\<close>

text \<open>
  Modelled from the spec: \<^verbatim>\<open>program.var_types\<close>, \<^verbatim>\<open>get_used_indices\<close> and
  \<^verbatim>\<open>get_unused_indices\<close> of \<^verbatim>\<open>dsl.program\<close> are not among the sources. The variables of a
  program are its inputs, indices \<open>0\<close> to \<open>k - 1\<close>, followed by the result of each
  statement. An index is used when some statement has it as an argument. An unused index
  is the index of an input or of an intermediate result (the result of a statement other
  than the last) that no statement has as an argument.
\<close>

fun arg_vars :: "arg list \<Rightarrow> nat list" where
  "arg_vars [] = []"
| "arg_vars (Var i # rest) = i # arg_vars rest"
| "arg_vars (Lambda f # rest) = arg_vars rest"

definition var_types :: "program \<Rightarrow> dsl_type list" where
  "var_types p = input_types p @ map (\<lambda>(function, args). output_type function) (statements p)"

definition get_used_indices :: "program \<Rightarrow> nat set" where
  "get_used_indices p = set (concat (map (\<lambda>(function, args). arg_vars args) (statements p)))"

definition get_unused_indices :: "program \<Rightarrow> nat set" where
  "get_unused_indices p =
     set [0..<length (input_types p) + (length (statements p) - 1)] - get_used_indices p"

text \<open>
  \<^verbatim>\<open>
  def get_free_indices(program, program_len):
      used = get_used_indices(program)
      total = set(range(program_len + len(program.input_types)))
      return total - used
  \<close>
  The second argument is the target length, so the indices of the statements still to
  come are free as well.
\<close>

definition get_free_indices :: "program \<Rightarrow> int \<Rightarrow> nat set" where
  "get_free_indices p program_len =
     (let used = get_used_indices p;
          total = set [0..<nat (program_len + int (length (input_types p)))]
      in total - used)"

text \<open>
  The test \<^verbatim>\<open>arg in free_indxs\<close>: an argument source is a variable index or a lambda, and a
  lambda is no member of a set of indices.
\<close>

fun in_free :: "nat set \<Rightarrow> arg \<Rightarrow> bool" where
  "in_free free_indxs (Var i) = (i \<in> free_indxs)"
| "in_free free_indxs (Lambda f) = False"

subsection \<open>The candidate arguments of a function\<close>

text \<open>
  \<^verbatim>\<open>
  def iterate_inputs(function, type_to_vars):
      if isinstance(function.input_type, tuple):
          input_types = list(function.input_type)
      else:
          input_types = [function.input_type]
      argslists = []
      for input_type in input_types:
          argslists.append(type_to_vars[input_type])
      for args in itertools.product(*argslists):
          yield args
  \<close>
  \<^verbatim>\<open>itertools.product\<close> reads its arguments when it is called and yields the tuples with the
  last position varying fastest, as \<open>product_lists\<close> does. \<open>type_to_vars\<close> is a
  \<^verbatim>\<open>defaultdict(list)\<close>: a total function from types to lists, empty by default.
\<close>

definition iterate_inputs :: "func \<Rightarrow> (dsl_type \<Rightarrow> arg list) \<Rightarrow> arg list list" where
  "iterate_inputs function type_to_vars =
     (let types = (case input_type function of Tuple ts \<Rightarrow> ts | Single t \<Rightarrow> [t]);
          argslists = map type_to_vars types
      in product_lists argslists)"

subsection \<open>The index from types to candidate variables\<close>

text \<open>
  \<^verbatim>\<open>
        type_to_vars = collections.defaultdict(list)
        for i, typ in enumerate(program.var_types):
            type_to_vars[typ].insert(0, i)

        # Move free indices to the front
        free_indxs = get_free_indices(program, program_len)
        for typ in program.var_types:
            for var in type_to_vars[typ]:
                if var in free_indxs:
                    type_to_vars[typ].remove(var)
                    type_to_vars[typ].insert(0, var)

        for func in LAMBDAS:
            type_to_vars[func.type].append(func)
  \<close>
  The inner loop of the second block iterates over a list while it changes it: the
  iterator of a Python list is a position that advances by one, compared with the current
  length before each step. \<open>move_free\<close> is that loop; \<^verbatim>\<open>remove\<close> deletes the first
  occurrence (\<open>remove1\<close>) and \<^verbatim>\<open>insert(0, var)\<close> puts the element at the head.
\<close>

definition index_vars :: "dsl_type list \<Rightarrow> dsl_type \<Rightarrow> arg list" where
  "index_vars types =
     fold (\<lambda>(i, typ) type_to_vars. type_to_vars(typ := Var i # type_to_vars typ))
       (List.enumerate 0 types) (\<lambda>typ. [])"

function move_free :: "nat set \<Rightarrow> arg list \<Rightarrow> nat \<Rightarrow> arg list" where
  "move_free free_indxs vars pos =
     (if pos < length vars then
        (let var = vars ! pos in
         if in_free free_indxs var then move_free free_indxs (var # remove1 var vars) (pos + 1)
         else move_free free_indxs vars (pos + 1))
      else vars)"
  by pat_completeness auto
termination
proof (relation "measure (\<lambda>(free_indxs, vars, pos). length vars - pos)")
  show "wf (measure (\<lambda>(free_indxs, vars, pos). length vars - pos))"
    by simp
next
  fix free_indxs :: "nat set" and vars :: "arg list" and pos :: nat and x :: arg
  assume "pos < length vars" and "x = vars ! pos"
  then have "length (x # remove1 x vars) = length vars"
    by (simp add: length_remove1)
  with \<open>pos < length vars\<close>
  show "((free_indxs, x # remove1 x vars, pos + 1), free_indxs, vars, pos)
          \<in> measure (\<lambda>(free_indxs, vars, pos). length vars - pos)"
    by simp
next
  fix free_indxs :: "nat set" and vars :: "arg list" and pos :: nat and x :: arg
  assume "pos < length vars"
  then show "((free_indxs, vars, pos + 1), free_indxs, vars, pos)
          \<in> measure (\<lambda>(free_indxs, vars, pos). length vars - pos)"
    by simp
qed

declare move_free.simps [simp del]

definition move_free_indices ::
  "nat set \<Rightarrow> dsl_type list \<Rightarrow> (dsl_type \<Rightarrow> arg list) \<Rightarrow> dsl_type \<Rightarrow> arg list" where
  "move_free_indices free_indxs types =
     fold (\<lambda>typ type_to_vars. type_to_vars(typ := move_free free_indxs (type_to_vars typ) 0))
       types"

definition add_lambdas ::
  "lambda_func list \<Rightarrow> (dsl_type \<Rightarrow> arg list) \<Rightarrow> dsl_type \<Rightarrow> arg list" where
  "add_lambdas lambdas =
     fold (\<lambda>func type_to_vars.
             type_to_vars(lambda_type func := type_to_vars (lambda_type func) @ [Lambda func]))
       lambdas"

definition build_type_to_vars ::
  "lambda_func list \<Rightarrow> int \<Rightarrow> program \<Rightarrow> dsl_type \<Rightarrow> arg list" where
  "build_type_to_vars lambdas program_len p =
     add_lambdas lambdas
       (move_free_indices (get_free_indices p program_len) (var_types p)
          (index_vars (var_types p)))"

text \<open>A list with the free variables first.\<close>

definition free_first :: "nat set \<Rightarrow> arg list \<Rightarrow> bool" where
  "free_first fr vars \<longleftrightarrow>
     filter (in_free fr) vars @ filter (\<lambda>x. \<not> in_free fr x) vars = vars"

subsection \<open>The state of an enumeration worker\<close>

text \<open>
  \<^verbatim>\<open>
  def init_gen_prog_worker(*args):
      global progress_counter, num_programs, program_len
      progress_counter, num_programs, program_len = args
  \<close>
  What a worker reads and writes besides its arguments: the shared progress counter, which
  is \<^verbatim>\<open>multiprocessing.Value('i', 0)\<close>, a signed 32-bit integer in shared memory: reading
  \<^verbatim>\<open>.value\<close> gives its signed value, and storing a value that does not fit wraps around; the
  list \<^verbatim>\<open>ALL_FUNCTIONS\<close>, which is handed to \<^verbatim>\<open>helper\<close> as \<^verbatim>\<open>functions\<close> and shuffled in place,
  so that every level of the recursion iterates over and shuffles the same list object;
  the random number generator, here the number of draws taken so far from a sequence
  \<open>rand\<close> of raw draws; and the set \<^verbatim>\<open>res\<close>, handed to \<^verbatim>\<open>helper\<close> as \<^verbatim>\<open>programs\<close>. The target
  count \<open>num_programs\<close>, the target length \<open>program_len\<close> and the list \<^verbatim>\<open>LAMBDAS\<close> do not
  change and are arguments. One worker is modelled: the counter is shared with the other
  workers of the pool; what they have added to it before this worker starts is the value
  of the counter in the state that the worker is given, and what they add to it between
  two steps of this worker is not part of the model.
\<close>

record worker_state =
  progress_counter :: "32 word"
  ALL_FUNCTIONS :: "func list"
  draws :: nat
  res :: "program set"

text \<open>
  \<^verbatim>\<open>random.shuffle(functions)\<close> of the standard library, which permutes the list in place:
  \<^verbatim>\<open>
      for i in reversed(range(1, len(x))):
          j = randbelow(i + 1)
          x[i], x[j] = x[j], x[i]
  \<close>
\<close>

definition swap :: "nat \<Rightarrow> nat \<Rightarrow> 'a list \<Rightarrow> 'a list" where
  "swap i j xs = xs[i := xs ! j, j := xs ! i]"

fun shuffle_from :: "(nat \<Rightarrow> nat) \<Rightarrow> nat \<Rightarrow> nat \<Rightarrow> 'a list \<Rightarrow> 'a list \<times> nat" where
  "shuffle_from rand 0 t xs = (xs, t)"
| "shuffle_from rand (Suc i) t xs =
     shuffle_from rand i (t + 1) (swap (Suc i) (rand t mod (Suc i + 1)) xs)"

definition shuffle_functions :: "(nat \<Rightarrow> nat) \<Rightarrow> worker_state \<Rightarrow> worker_state" where
  "shuffle_functions rand st =
     (let (functions, t) =
            shuffle_from rand (length (ALL_FUNCTIONS st) - 1) (draws st) (ALL_FUNCTIONS st)
      in st\<lparr>ALL_FUNCTIONS := functions, draws := t\<rparr>)"

subsection \<open>The recursive search\<close>

text \<open>
  \<^verbatim>\<open>
    def helper(functions, program, programs):
        random.shuffle(functions)
        if progress_counter.value >= num_programs:
            return True

        if len(program) >= program_len:
            if get_unused_indices(program) or program in programs:
                return False
            else:
                programs.add(program)
                progress_counter.value += 1
                print(...)
                return True

        ... (the index type_to_vars and free_indxs, above)

        used = set(program.statements)
        for function in functions:
            for args in iterate_inputs(function, type_to_vars):
                if len([arg for arg in args if arg in free_indxs]) == 0:
                    continue
                statement = Statement(function, args)
                if statement in used:
                    continue

                next_program = Program(program.input_types,
                                       program.statements + [statement])
                if helper(functions, next_program, programs):
                    return True
  \<close>
  \<open>helper\<close> returns \<open>Some True\<close>, \<open>Some False\<close>, or \<open>None\<close> when the loops end without a
  \<^verbatim>\<open>return\<close>; its callers test the result for truth. \<open>loop_functions\<close> is the loop over
  \<^verbatim>\<open>functions\<close> from position \<open>i\<close>: the iterator of a Python list is a position that is
  compared with the length of the list before each step and reads the list as it then
  is, after the shuffles of the calls below. The length \<open>n\<close> is taken when the loop
  starts; no shuffle and no call below changes it (lemmas \<open>shuffle_functions_fields\<close> and
  \<open>helper_ext\<close>), so every read \<open>ALL_FUNCTIONS st ! i\<close> is in range. \<open>loop_args\<close> is
  the loop over the argument tuples, which \<^verbatim>\<open>itertools.product\<close> fixed when the generator
  started.
\<close>

function helper ::
    "(nat \<Rightarrow> nat) \<Rightarrow> lambda_func list \<Rightarrow> int \<Rightarrow> int \<Rightarrow> program \<Rightarrow> worker_state \<Rightarrow>
     bool option \<times> worker_state"
  and loop_functions ::
    "(nat \<Rightarrow> nat) \<Rightarrow> lambda_func list \<Rightarrow> int \<Rightarrow> int \<Rightarrow> program \<Rightarrow> (dsl_type \<Rightarrow> arg list) \<Rightarrow>
     nat set \<Rightarrow> nat \<Rightarrow> nat \<Rightarrow> worker_state \<Rightarrow> bool option \<times> worker_state"
  and loop_args ::
    "(nat \<Rightarrow> nat) \<Rightarrow> lambda_func list \<Rightarrow> int \<Rightarrow> int \<Rightarrow> program \<Rightarrow> nat set \<Rightarrow> func \<Rightarrow>
     arg list list \<Rightarrow> worker_state \<Rightarrow> bool option \<times> worker_state"
where
  "helper rand lambdas num_programs program_len program st0 =
     (let st = shuffle_functions rand st0 in
      if num_programs \<le> sint (progress_counter st) then (Some True, st)
      else if program_len \<le> int (len program) then
        (if get_unused_indices program \<noteq> {} \<or> program \<in> res st then (Some False, st)
         else (Some True,
               st\<lparr>res := insert program (res st),
                  progress_counter := progress_counter st + 1\<rparr>))
      else
        loop_functions rand lambdas num_programs program_len program
          (build_type_to_vars lambdas program_len program)
          (get_free_indices program program_len) (length (ALL_FUNCTIONS st)) 0 st)"
| "loop_functions rand lambdas num_programs program_len program type_to_vars free_indxs n i st =
     (if i < n then
        (let function = ALL_FUNCTIONS st ! i;
             (r, st') = loop_args rand lambdas num_programs program_len program free_indxs
                          function (iterate_inputs function type_to_vars) st
         in if r = Some True then (Some True, st')
            else loop_functions rand lambdas num_programs program_len program type_to_vars
                   free_indxs n (i + 1) st')
      else (None, st))"
| "loop_args rand lambdas num_programs program_len program free_indxs function [] st =
     (None, st)"
| "loop_args rand lambdas num_programs program_len program free_indxs function (args # rest) st =
     (if filter (in_free free_indxs) args = []
      then loop_args rand lambdas num_programs program_len program free_indxs function rest st
      else if (function, args) \<in> set (statements program)
      then loop_args rand lambdas num_programs program_len program free_indxs function rest st
      else
        (let next_program = program\<lparr>statements := statements program @ [(function, args)]\<rparr>;
             (r, st') = helper rand lambdas num_programs program_len next_program st
         in if r = Some True then (Some True, st')
            else loop_args rand lambdas num_programs program_len program free_indxs function
                   rest st'))"
  by pat_completeness auto
termination
  apply (relation "inv_image (less_than <*lex*> less_than <*lex*> less_than)
     (\<lambda>x. case x of
        Inl (rand, lambdas, num_programs, program_len, program, st) \<Rightarrow>
          (nat (program_len - int (len program)),
           if program_len \<le> int (len program) then 0 else 3, 0)
      | Inr (Inl (rand, lambdas, num_programs, program_len, program, type_to_vars, free_indxs,
            n, i, st)) \<Rightarrow>
          (nat (program_len - int (len program)), 2, n - i)
      | Inr (Inr (rand, lambdas, num_programs, program_len, program, free_indxs, function,
            argss, st)) \<Rightarrow>
          (nat (program_len - int (len program)), 1, length argss))")
  apply (auto simp: len_def)
  done

declare helper.simps [simp del] loop_functions.simps [simp del]

subsection \<open>The restart loop\<close>

text \<open>
  \<^verbatim>\<open>
    program_base = Program(input_types, [])
    res = set()
    while progress_counter.value < num_programs:
        helper(ALL_FUNCTIONS, program_base, res)
    return res
  \<close>
  The loop has no bound, so it is a partial function: \<open>None\<close> is a run that does not
  return. \<open>gen_program_worker\<close> returns the set with the state it leaves behind.
\<close>

partial_function (option) restart_loop ::
  "(nat \<Rightarrow> nat) \<Rightarrow> lambda_func list \<Rightarrow> int \<Rightarrow> int \<Rightarrow> program \<Rightarrow> worker_state \<Rightarrow>
   worker_state option"
where
  "restart_loop rand lambdas num_programs program_len program_base st =
     (if sint (progress_counter st) < num_programs
      then restart_loop rand lambdas num_programs program_len program_base
             (snd (helper rand lambdas num_programs program_len program_base st))
      else Some st)"

definition gen_program_worker ::
  "(nat \<Rightarrow> nat) \<Rightarrow> lambda_func list \<Rightarrow> int \<Rightarrow> int \<Rightarrow> dsl_type list \<Rightarrow> worker_state \<Rightarrow>
   (program set \<times> worker_state) option"
where
  "gen_program_worker rand lambdas num_programs program_len types st =
     (let program_base = \<lparr>input_types = types, statements = []\<rparr>
      in map_option (\<lambda>st'. (res st', st'))
           (restart_loop rand lambdas num_programs program_len program_base (st\<lparr>res := {}\<rparr>)))"

text \<open>The state after \<open>n\<close> passes through the body of the restart loop.\<close>

definition restarts ::
  "(nat \<Rightarrow> nat) \<Rightarrow> lambda_func list \<Rightarrow> int \<Rightarrow> int \<Rightarrow> program \<Rightarrow> nat \<Rightarrow> worker_state \<Rightarrow>
   worker_state" where
  "restarts rand lambdas num_programs program_len program_base n st =
     ((\<lambda>s. snd (helper rand lambdas num_programs program_len program_base s)) ^^ n) st"

subsection \<open>What the search keeps\<close>

text \<open>
  A program is well scoped when every statement refers to variables that exist when it
  runs: statement \<open>k\<close> defines variable \<open>length (input_types p) + k\<close> and has arguments
  below that index. \<open>ext sig L scoped st st'\<close> relates the state before and after a part of
  the search: the result set only grows, the list of functions keeps its length, and
  every program added has signature \<open>sig\<close>, no unused index and length \<open>L\<close>, and is well
  scoped when \<open>scoped\<close> holds. \<open>counted num_programs st r\<close> relates the state before a part of
  the search with its result and the state after it: the result set and the counter are
  as they were, or the result is true, the counter was below the quota, one new program
  has been added and the counter has been incremented once.
\<close>

definition well_scoped :: "program \<Rightarrow> bool" where
  "well_scoped p \<longleftrightarrow>
     (\<forall>k < length (statements p). \<forall>i \<in> set (arg_vars (snd (statements p ! k))).
        i < length (input_types p) + k)"

definition ext :: "dsl_type list \<Rightarrow> int \<Rightarrow> bool \<Rightarrow> worker_state \<Rightarrow> worker_state \<Rightarrow> bool" where
  "ext sig L scoped st st' \<longleftrightarrow>
     res st \<subseteq> res st' \<and>
     length (ALL_FUNCTIONS st') = length (ALL_FUNCTIONS st) \<and>
     (\<forall>q \<in> res st' - res st.
        input_types q = sig \<and> get_unused_indices q = {} \<and> int (len q) = L \<and>
        (scoped \<longrightarrow> well_scoped q))"


subsection \<open>Sample catalog entries, programs and oracle\<close>

text \<open>
  Concrete data for the closed theorems below: five functions in the style of the
  catalog, programs over one LIST input, and an oracle that judges two programs the same
  when they are equal, or both compute the minimum, or both the maximum of the input.
\<close>

definition SORT :: func where
  "SORT = \<lparr>func_name = ''SORT'', input_type = Single TLIST, output_type = TLIST\<rparr>"

definition REVERSE :: func where
  "REVERSE = \<lparr>func_name = ''REVERSE'', input_type = Single TLIST, output_type = TLIST\<rparr>"

definition MINIMUM :: func where
  "MINIMUM = \<lparr>func_name = ''MINIMUM'', input_type = Single TLIST, output_type = TINT\<rparr>"

definition MAXIMUM :: func where
  "MAXIMUM = \<lparr>func_name = ''MAXIMUM'', input_type = Single TLIST, output_type = TINT\<rparr>"

definition HEAD :: func where
  "HEAD = \<lparr>func_name = ''HEAD'', input_type = Single TLIST, output_type = TINT\<rparr>"

definition prog_min :: program where
  "prog_min = \<lparr>input_types = [TLIST], statements = [(MINIMUM, [Var 0])]\<rparr>"

definition prog_max :: program where
  "prog_max = \<lparr>input_types = [TLIST], statements = [(MAXIMUM, [Var 0])]\<rparr>"

definition prog_head :: program where
  "prog_head = \<lparr>input_types = [TLIST], statements = [(HEAD, [Var 0])]\<rparr>"

definition prog_sort_min :: program where
  "prog_sort_min =
     \<lparr>input_types = [TLIST], statements = [(SORT, [Var 0]), (MINIMUM, [Var 1])]\<rparr>"

definition prog_reverse_min :: program where
  "prog_reverse_min =
     \<lparr>input_types = [TLIST], statements = [(REVERSE, [Var 0]), (MINIMUM, [Var 1])]\<rparr>"

definition prog_reverse_max :: program where
  "prog_reverse_max =
     \<lparr>input_types = [TLIST], statements = [(REVERSE, [Var 0]), (MAXIMUM, [Var 1])]\<rparr>"

definition prog_reverse_head :: program where
  "prog_reverse_head =
     \<lparr>input_types = [TLIST], statements = [(REVERSE, [Var 0]), (HEAD, [Var 1])]\<rparr>"

definition ex_min :: "example list" where
  "ex_min = [([ListVal [3, 1, 2]], IntVal 1), ([ListVal [5, 4]], IntVal 4)]"

definition ex_max :: "example list" where
  "ex_max = [([ListVal [3, 1, 2]], IntVal 3), ([ListVal [5, 4]], IntVal 5)]"

definition ex_head :: "example list" where
  "ex_head = [([ListVal [3, 1, 2]], IntVal 3), ([ListVal [4, 5]], IntVal 4)]"

definition ex_last :: "example list" where
  "ex_last = [([ListVal [3, 1, 2]], IntVal 2), ([ListVal [4, 5]], IntVal 5)]"

definition sample_is_same :: "program \<Rightarrow> program \<Rightarrow> example list \<Rightarrow> bool" where
  "sample_is_same p other examples =
     (p = other \<or>
      (p \<in> {prog_min, prog_sort_min, prog_reverse_min} \<and>
       other \<in> {prog_min, prog_sort_min, prog_reverse_min}) \<or>
      (p \<in> {prog_max, prog_reverse_max} \<and> other \<in> {prog_max, prog_reverse_max}))"

definition test_corpus :: "(program, example list) dict" where
  "test_corpus =
     [(prog_head, ex_head), (prog_sort_min, ex_min), (prog_reverse_max, ex_max),
      (prog_reverse_min, ex_min), (prog_reverse_head, ex_last)]"

definition sample_json_loads :: "string \<Rightarrow> py_error + string" where
  "sample_json_loads x = (if x = ''{'' then Inl JSONDecodeError else Inr x)"

definition sample_program_parse :: "string \<Rightarrow> py_error + program" where
  "sample_program_parse line =
     (if line = ''MINIMUM'' then Inr prog_min
      else if line = ''HEAD'' then Inr prog_head
      else Inl ParseError)"

definition sample_example_from_line :: "string \<Rightarrow> py_error + example list" where
  "sample_example_from_line line =
     (if line = ''MINIMUM'' then Inr ex_min
      else if line = ''HEAD'' then Inr ex_head
      else Inl KeyError)"

definition sample_gen_programs :: "int \<Rightarrow> int \<Rightarrow> (program, example list) dict" where
  "sample_gen_programs program_len num_programs =
     (if program_len = 2 then [(prog_sort_min, ex_min), (prog_reverse_head, ex_last)] else [])"

text \<open>A generation phase that records the quota it was given as the examples of its program.\<close>

definition quota_gen_programs :: "int \<Rightarrow> int \<Rightarrow> (program, int) dict" where
  "quota_gen_programs program_len num_programs =
     [(\<lparr>input_types = [TLIST], statements = replicate (nat program_len) (SORT, [Var 0])\<rparr>,
       num_programs)]"

definition prog_two_lists :: program where
  "prog_two_lists = \<lparr>input_types = [TLIST, TLIST], statements = [(SORT, [Var 1])]\<rparr>"

definition MAP :: func where
  "MAP = \<lparr>func_name = ''MAP'', input_type = Tuple [THIGHER 0, TLIST], output_type = TLIST\<rparr>"

definition plus1 :: lambda_func where
  "plus1 = \<lparr>lambda_name = ''+1'', lambda_type = THIGHER 0\<rparr>"

definition sample_state :: worker_state where
  "sample_state = \<lparr>progress_counter = 0, ALL_FUNCTIONS = [MINIMUM], draws = 0, res = {}\<rparr>"

definition zero_draws :: "nat \<Rightarrow> nat" where
  "zero_draws t = 0"

definition base_list :: program where
  "base_list = \<lparr>input_types = [TLIST], statements = []\<rparr>"

definition found_state :: worker_state where
  "found_state =
     \<lparr>progress_counter = 1, ALL_FUNCTIONS = [MINIMUM], draws = 0, res = {prog_min}\<rparr>"

section \<open>Properties\<close>

subsection \<open>Input-type signatures\<close>

lemma input_types_of_has_list:
  "1 \<le> num_list \<Longrightarrow> TLIST \<in> set (input_types_of n num_list)"
  by (cases "nat num_list") (auto simp: input_types_of_def)

lemma get_input_type_combinations_nonempty:
  "1 \<le> n \<Longrightarrow> [TLIST] \<in> set (get_input_type_combinations n)"
proof -
  assume n: "1 \<le> n"
  have "input_types_of 1 1 = [TLIST]"
    by (simp add: input_types_of_def)
  moreover have "(1::int) \<in> set [1..n]" "(1::int) \<in> set [1..1]"
    using n by simp_all
  ultimately show ?thesis
    unfolding get_input_type_combinations_def set_concat set_map by force
qed

text \<open>
  Claim C9. For every number of inputs \<open>n \<ge> 1\<close>, signatures are enumerated, and every
  signature that \<open>get_input_type_combinations n\<close> returns has a LIST-typed slot; none
  consists of scalar-int slots only.
\<close>

theorem get_input_type_combinations_has_list:
  assumes "1 \<le> n"
  shows "get_input_type_combinations n \<noteq> [] \<and>
         (\<forall>input_types \<in> set (get_input_type_combinations n).
            TLIST \<in> set input_types \<and> \<not> (\<forall>t \<in> set input_types. t = TINT))"
proof -
  have "TLIST \<in> set input_types"
    if "input_types \<in> set (get_input_type_combinations n)" for input_types
  proof -
    from that obtain m k where "k \<in> set [1..m]" and "input_types = input_types_of m k"
      by (auto simp: get_input_type_combinations_def)
    then show ?thesis
      by (simp add: input_types_of_has_list)
  qed
  moreover have "get_input_type_combinations n \<noteq> []"
    using get_input_type_combinations_nonempty [OF assms] by auto
  ultimately show ?thesis
    by auto
qed

theorem get_input_type_combinations_has_list_witness:
  "(1::int) \<le> 2 \<and>
   get_input_type_combinations 2 = [[TLIST], [TLIST, TINT], [TLIST, TLIST]] \<and>
   TLIST \<in> set [TLIST, TINT] \<and> \<not> (\<forall>t \<in> set [TLIST, TINT]. t = TINT)"
proof -
  have c: "get_input_type_combinations 2 = [[TLIST], [TLIST, TINT], [TLIST, TLIST]]"
    by code_simp
  have "[TLIST, TINT] \<in> set (get_input_type_combinations 2)"
    by (simp add: c)
  with get_input_type_combinations_has_list [of 2] c show ?thesis
    by simp
qed

subsection \<open>The quota\<close>

lemma quota_known_sizes:
  "quota num_train num_test 1 = min (num_train + num_test) 47"
  "quota num_train num_test 2 = min (num_train + num_test) 2883"
  "program_len \<noteq> 1 \<Longrightarrow> program_len \<noteq> 2 \<Longrightarrow>
     quota num_train num_test program_len = num_train + num_test"
  by (simp_all add: quota_def KNOWN_TRAIN_SIZES_def)

lemma train_loop_quota_cong:
  "\<forall>program_len \<in> set lens.
      gen_programs' program_len (quota num_train num_test program_len) =
      gen_programs program_len (quota num_train num_test program_len) \<Longrightarrow>
   train_loop is_same gen_programs' num_train num_test num_workers lens examples =
   train_loop is_same gen_programs num_train num_test num_workers lens examples"
proof (induction lens arbitrary: examples)
  case Nil
  then show ?case by simp
next
  case (Cons program_len lens)
  then have "gen_programs' program_len (quota num_train num_test program_len) =
      gen_programs program_len (quota num_train num_test program_len)"
    by simp
  moreover have "train_loop is_same gen_programs' num_train num_test num_workers lens ex =
      train_loop is_same gen_programs num_train num_test num_workers lens ex" for ex
    using Cons.prems by (intro Cons.IH) simp
  ultimately show ?case
    by (simp split: sum.splits)
qed

text \<open>
  Claim C7. A pass of the builder's loop for the target length 1 calls the generation
  phase with the quota \<open>min (num_train + num_test) 47\<close>, a pass for the length 2 calls it
  with \<open>min (num_train + num_test) 2883\<close>, and a pass for any other length calls it with
  \<open>num_train + num_test\<close>; the batch of that call is what the pass merges. The quotas of
  the lengths 1 and 2 are at most 47 and at most 2883. The generation phase is called with
  no other quota: the loop over any lengths gives the same result for two generation
  phases that agree on each length of the loop at the quota of that length. Without a
  cache the builder is this loop over the lengths 1 to \<open>max_train_len\<close>, from the empty
  corpus.
\<close>

theorem train_loop_passes_capped_quota:
  "train_loop is_same gen_programs num_train num_test num_workers (1 # rest) examples =
     (case merge_batch is_same num_workers examples
             (gen_programs 1 (min (num_train + num_test) 47)) of
        Inl err \<Rightarrow> Inl err
      | Inr examples' \<Rightarrow>
          train_loop is_same gen_programs num_train num_test num_workers rest examples') \<and>
   train_loop is_same gen_programs num_train num_test num_workers (2 # rest) examples =
     (case merge_batch is_same num_workers examples
             (gen_programs 2 (min (num_train + num_test) 2883)) of
        Inl err \<Rightarrow> Inl err
      | Inr examples' \<Rightarrow>
          train_loop is_same gen_programs num_train num_test num_workers rest examples') \<and>
   (program_len \<noteq> 1 \<and> program_len \<noteq> 2 \<longrightarrow>
    train_loop is_same gen_programs num_train num_test num_workers (program_len # rest) examples =
      (case merge_batch is_same num_workers examples
              (gen_programs program_len (num_train + num_test)) of
         Inl err \<Rightarrow> Inl err
       | Inr examples' \<Rightarrow>
           train_loop is_same gen_programs num_train num_test num_workers rest examples')) \<and>
   min (num_train + num_test) 47 \<le> 47 \<and>
   min (num_train + num_test) 2883 \<le> 2883 \<and>
   (\<forall>gen_programs'.
      (\<forall>program_len \<in> set lens.
         gen_programs' program_len
           (if program_len = 1 then min (num_train + num_test) 47
            else if program_len = 2 then min (num_train + num_test) 2883
            else num_train + num_test) =
         gen_programs program_len
           (if program_len = 1 then min (num_train + num_test) 47
            else if program_len = 2 then min (num_train + num_test) 2883
            else num_train + num_test)) \<longrightarrow>
      train_loop is_same gen_programs' num_train num_test num_workers lens examples =
      train_loop is_same gen_programs num_train num_test num_workers lens examples) \<and>
   build_corpus is_same gen_programs json_loads program_parse example_from_line
     num_train num_test max_train_len num_workers None =
     train_loop is_same gen_programs num_train num_test num_workers [1..max_train_len] []"
proof -
  have q: "quota num_train num_test program_len =
      (if program_len = 1 then min (num_train + num_test) 47
       else if program_len = 2 then min (num_train + num_test) 2883
       else num_train + num_test)" for program_len
    by (simp add: quota_known_sizes)
  have frame: "train_loop is_same g num_train num_test num_workers lens examples =
      train_loop is_same gen_programs num_train num_test num_workers lens examples"
    if "\<forall>program_len \<in> set lens.
         g program_len
           (if program_len = 1 then min (num_train + num_test) 47
            else if program_len = 2 then min (num_train + num_test) 2883
            else num_train + num_test) =
         gen_programs program_len
           (if program_len = 1 then min (num_train + num_test) 47
            else if program_len = 2 then min (num_train + num_test) 2883
            else num_train + num_test)" for g
    using that unfolding q [symmetric] by (rule train_loop_quota_cong)
  show ?thesis
  proof (intro conjI impI allI)
    show "train_loop is_same g num_train num_test num_workers lens examples =
        train_loop is_same gen_programs num_train num_test num_workers lens examples"
      if "\<forall>program_len \<in> set lens.
         g program_len
           (if program_len = 1 then min (num_train + num_test) 47
            else if program_len = 2 then min (num_train + num_test) 2883
            else num_train + num_test) =
         gen_programs program_len
           (if program_len = 1 then min (num_train + num_test) 47
            else if program_len = 2 then min (num_train + num_test) 2883
            else num_train + num_test)" for g
      using that by (rule frame)
  qed (simp_all add: quota_known_sizes build_corpus_def)
qed

theorem train_loop_passes_capped_quota_witness:
  "build_corpus (\<lambda>program other ex. False) quota_gen_programs sample_json_loads
     sample_program_parse (\<lambda>line. Inl KeyError) 3000 500 3 2 None =
     Inr [(\<lparr>input_types = [TLIST], statements = [(SORT, [Var 0])]\<rparr>, 47),
          (\<lparr>input_types = [TLIST], statements = [(SORT, [Var 0]), (SORT, [Var 0])]\<rparr>, 2883),
          (\<lparr>input_types = [TLIST],
             statements = [(SORT, [Var 0]), (SORT, [Var 0]), (SORT, [Var 0])]\<rparr>, 3500)] \<and>
   build_corpus (\<lambda>program other ex. False) quota_gen_programs sample_json_loads
     sample_program_parse (\<lambda>line. Inl KeyError) 30 10 3 2 None =
     Inr [(\<lparr>input_types = [TLIST], statements = [(SORT, [Var 0])]\<rparr>, 40),
          (\<lparr>input_types = [TLIST], statements = [(SORT, [Var 0]), (SORT, [Var 0])]\<rparr>, 40),
          (\<lparr>input_types = [TLIST],
             statements = [(SORT, [Var 0]), (SORT, [Var 0]), (SORT, [Var 0])]\<rparr>, 40)]"
proof -
  have 1: "train_loop (\<lambda>program other ex. False) quota_gen_programs 3000 500 2 [1, 2, 3] [] =
     Inr [(\<lparr>input_types = [TLIST], statements = [(SORT, [Var 0])]\<rparr>, 47),
          (\<lparr>input_types = [TLIST], statements = [(SORT, [Var 0]), (SORT, [Var 0])]\<rparr>, 2883),
          (\<lparr>input_types = [TLIST],
             statements = [(SORT, [Var 0]), (SORT, [Var 0]), (SORT, [Var 0])]\<rparr>, 3500)]"
    by code_simp
  have 2: "train_loop (\<lambda>program other ex. False) quota_gen_programs 30 10 2 [1, 2, 3] [] =
     Inr [(\<lparr>input_types = [TLIST], statements = [(SORT, [Var 0])]\<rparr>, 40),
          (\<lparr>input_types = [TLIST], statements = [(SORT, [Var 0]), (SORT, [Var 0])]\<rparr>, 40),
          (\<lparr>input_types = [TLIST],
             statements = [(SORT, [Var 0]), (SORT, [Var 0]), (SORT, [Var 0])]\<rparr>, 40)]"
    by code_simp
  have 3: "[1..3] = [1, 2, 3::int]"
    by code_simp
  from train_loop_passes_capped_quota
    [of "\<lambda>program other ex. False" quota_gen_programs 3000 500 2 "[2, 3]" "[]" 3 "[]"
       sample_json_loads sample_program_parse "\<lambda>line. Inl KeyError" 3]
    train_loop_passes_capped_quota
    [of "\<lambda>program other ex. False" quota_gen_programs 30 10 2 "[2, 3]" "[]" 3 "[]"
       sample_json_loads sample_program_parse "\<lambda>line. Inl KeyError" 3] 1 2 3
  show ?thesis
    by simp
qed

subsection \<open>Dictionaries, slices and the deduplication worker\<close>

lemma try_map_Inr: "(\<And>x. x \<in> set xs \<Longrightarrow> f x = Inr (g x)) \<Longrightarrow> try_map f xs = Inr (map g xs)"
  by (induction xs) auto

lemma update_new_key: "k \<notin> fst ` set d \<Longrightarrow> AList.update k v (d @ a) = d @ AList.update k v a"
  by (induction d) auto

lemma dict_update_append:
  "fst ` set d \<inter> fst ` set e = {} \<Longrightarrow> dict_update (d @ a) e = d @ dict_update a e"
proof (induction e arbitrary: a)
  case Nil
  then show ?case by (simp add: dict_update_def)
next
  case (Cons x e)
  obtain k v where x: "x = (k, v)" by (cases x)
  from Cons.prems x have "k \<notin> fst ` set d" and "fst ` set d \<inter> fst ` set e = {}"
    by auto
  with Cons.IH [of "AList.update k v a"] show ?case
    by (simp add: dict_update_def x update_new_key)
qed

lemma set_update_subset: "set (AList.update k v d) \<subseteq> insert (k, v) (set d)"
  by (induction d) auto

lemma set_dict_update_subset: "set (dict_update d e) \<subseteq> set d \<union> set e"
proof (induction e arbitrary: d)
  case Nil
  then show ?case by (simp add: dict_update_def)
next
  case (Cons x e)
  obtain k v where x: "x = (k, v)" by (cases x)
  have "set (dict_update (AList.update k v d) e) \<subseteq> set (AList.update k v d) \<union> set e"
    using Cons.IH [of "AList.update k v d"] .
  with set_update_subset [of k v d] show ?case
    by (auto simp: dict_update_def x)
qed

lemma distinct_dict_update: "distinct (map fst d) \<Longrightarrow> distinct (map fst (dict_update d e))"
  by (induction e arbitrary: d) (auto simp: dict_update_def AList.distinct_update)

lemma dict_update_distinct_items:
  "distinct (map fst e) \<Longrightarrow> dict_update [] e = e"
proof -
  have "distinct (map fst (a @ e)) \<Longrightarrow> dict_update a e = a @ e" for a
  proof (induction e arbitrary: a)
    case Nil
    then show ?case by (simp add: dict_update_def)
  next
    case (Cons x e)
    obtain k v where x: "x = (k, v)" by (cases x)
    from Cons.prems x have "k \<notin> fst ` set a"
      by auto
    then have "AList.update k v a = a @ [(k, v)]"
      using update_new_key [of k a v "[]"] by simp
    with Cons.IH [of "a @ [(k, v)]"] Cons.prems x show ?case
      by (simp add: dict_update_def)
  qed
  from this [of "[]"] show "distinct (map fst e) \<Longrightarrow> dict_update [] e = e"
    by simp
qed

lemma set_slice_step: "set (slice_step xs start step) \<subseteq> set xs"
proof (induction xs start step rule: slice_step.induct)
  case (1 xs start step)
  then show ?case
    by (subst slice_step.simps) auto
qed

lemma slice_step_indices:
  "\<exists>ks. slice_step xs start step = map (nth xs) ks \<and> sorted_wrt (<) ks \<and> (\<forall>k \<in> set ks. start \<le> k \<and> k < length xs)"
proof (induction xs start step rule: slice_step.induct)
  case (1 xs start step)
  show ?case
  proof (cases "start < length xs \<and> 0 < step")
    case True
    with 1 obtain ks where ks: "slice_step xs (start + step) step = map (nth xs) ks"
      "sorted_wrt (<) ks" "\<forall>k \<in> set ks. start + step \<le> k \<and> k < length xs"
      by blast
    have "slice_step xs start step = map (nth xs) (start # ks)"
      using True ks(1) by (subst slice_step.simps) simp
    moreover have "sorted_wrt (<) (start # ks)"
      using ks(2,3) True by auto
    moreover have "\<forall>k \<in> set (start # ks). start \<le> k \<and> k < length xs"
      using ks(3) True by auto
    ultimately show ?thesis
      by blast
  next
    case False
    then have "slice_step xs start step = map (nth xs) []"
      by (subst slice_step.simps) simp
    then show ?thesis
      by (intro exI [of _ "[]"]) simp
  qed
qed

lemma distinct_slice_step: "distinct xs \<Longrightarrow> distinct (slice_step xs start step)"
proof -
  assume d: "distinct xs"
  obtain ks where ks: "slice_step xs start step = map (nth xs) ks" "sorted_wrt (<) ks"
    "\<forall>k \<in> set ks. start \<le> k \<and> k < length xs"
    using slice_step_indices by blast
  have "distinct ks"
    using ks(2) by (simp add: strict_sorted_iff)
  moreover have "inj_on (nth xs) (set ks)"
    using ks(3) d by (auto simp: inj_on_def nth_eq_iff_index_eq)
  ultimately show ?thesis
    by (simp add: ks(1) distinct_map)
qed

lemma slice_step_covers:
  "start \<le> k \<Longrightarrow> (k - start) mod step = 0 \<Longrightarrow> k < length xs \<Longrightarrow> 0 < step \<Longrightarrow>
   xs ! k \<in> set (slice_step xs start step)"
proof (induction xs start step rule: slice_step.induct)
  case (1 xs start step)
  show ?case
  proof (cases "k = start")
    case True
    with 1 show ?thesis by (subst slice_step.simps) simp
  next
    case False
    with "1.prems" have "step \<le> k - start"
      by (metis mod_less not_le_imp_less zero_less_diff le_neq_implies_less less_not_refl)
    then have le: "start + step \<le> k"
      using "1.prems"(1) by simp
    from "1.prems"(2) have "step dvd (k - start)"
      by (simp add: mod_eq_0_iff_dvd)
    then have "step dvd k - (start + step)"
      using dvd_diff_nat [of step "k - start" step] by simp
    then have "(k - (start + step)) mod step = 0"
      by (simp add: mod_eq_0_iff_dvd)
    note le this
    with "1.prems" "1.IH" have "xs ! k \<in> set (slice_step xs (start + step) step)"
      by simp
    with "1.prems" show ?thesis
      by (subst slice_step.simps) auto
  qed
qed



lemma discard_inner_eq:
  "map_of d p = Some ex \<Longrightarrow>
   discard_inner is_same p existing d =
     Inr (if identical_to_existing is_same existing (p, ex) then AList.delete p d else d)"
  by (induction existing) (auto simp: identical_to_existing_def getitem_def)

lemma discard_outer_eq:
  "distinct (map fst d) \<Longrightarrow> distinct ps \<Longrightarrow> set ps \<subseteq> fst ` set d \<Longrightarrow>
   discard_outer is_same existing ps d =
     Inr (filter (\<lambda>entry. fst entry \<in> set ps \<longrightarrow> \<not> identical_to_existing is_same existing entry) d)"
proof (induction ps arbitrary: d)
  case Nil
  then show ?case by simp
next
  case (Cons p ps)
  from Cons.prems obtain ex where ex: "map_of d p = Some ex"
    by (metis list.set_intros(1) map_of_eq_None_iff not_Some_eq subsetD)
  let ?d' = "if identical_to_existing is_same existing (p, ex) then AList.delete p d else d"
  have inner: "discard_inner is_same p existing d = Inr ?d'"
    by (rule discard_inner_eq [OF ex])
  have d1: "distinct (map fst ?d')"
    using Cons.prems(1) by (simp add: AList.distinct_delete)
  have d2: "distinct ps" and p: "p \<notin> set ps"
    using Cons.prems(2) by simp_all
  have "fst ` set (AList.delete p d) = fst ` set d - {p}"
    by (auto simp: AList.delete_eq image_iff)
  with Cons.prems(3) p have d3: "set ps \<subseteq> fst ` set ?d'"
    by auto
  have only: "e = ex" if "(p, e) \<in> set d" for e
    using that ex Cons.prems(1) by simp
  have "filter (\<lambda>entry. fst entry \<in> set ps \<longrightarrow> \<not> identical_to_existing is_same existing entry) ?d' =
        filter (\<lambda>entry. fst entry \<in> set (p # ps) \<longrightarrow> \<not> identical_to_existing is_same existing entry) d"
    using only by (auto simp: AList.delete_eq intro!: filter_cong)
  with Cons.IH [OF d1 d2 d3] inner show ?case
    by simp
qed

lemma discard_identical_worker_eq:
  assumes "distinct (map fst new_examples)"
  shows "discard_identical_worker is_same existing new_examples =
     Inr (filter (\<lambda>entry. \<not> identical_to_existing is_same existing entry) new_examples)"
proof -
  have "discard_outer is_same existing (map fst new_examples) new_examples =
     Inr (filter (\<lambda>entry. fst entry \<in> set (map fst new_examples) \<longrightarrow>
        \<not> identical_to_existing is_same existing entry) new_examples)"
    using assms by (intro discard_outer_eq) auto
  moreover have "filter (\<lambda>entry. fst entry \<in> set (map fst new_examples) \<longrightarrow>
        \<not> identical_to_existing is_same existing entry) new_examples =
     filter (\<lambda>entry. \<not> identical_to_existing is_same existing entry) new_examples"
    by (auto intro!: filter_cong)
  ultimately show ?thesis
    by (simp add: discard_identical_worker_def)
qed



lemma slice_step_map: "slice_step (map f xs) start step = map f (slice_step xs start step)"
proof (induction xs start step rule: slice_step.induct)
  case (1 xs start step)
  then show ?case
    by (subst (1 2) slice_step.simps) simp
qed

lemma sub_dict_slice:
  assumes "distinct (map fst d)"
  shows "sub_dict d (slice_step (map fst d) start step) = Inr (slice_step d start step)"
proof -
  let ?part = "slice_step d start step"
  have item: "(case getitem d p of Inl err \<Rightarrow> Inl err | Inr v \<Rightarrow> Inr (p, v)) =
              Inr (p, the (map_of d p))" if "p \<in> fst ` set d" for p
  proof -
    from that obtain v where "map_of d p = Some v"
      by (metis map_of_eq_None_iff not_Some_eq)
    then show ?thesis
      by (simp add: getitem_def)
  qed
  have "set (slice_step (map fst d) start step) \<subseteq> fst ` set d"
    using set_slice_step [of "map fst d" start step] by simp
  then have "try_map (\<lambda>p. case getitem d p of Inl err \<Rightarrow> Inl err | Inr v \<Rightarrow> Inr (p, v))
               (slice_step (map fst d) start step) =
             Inr (map (\<lambda>p. (p, the (map_of d p))) (slice_step (map fst d) start step))"
    by (intro try_map_Inr item) auto
  moreover have "map (\<lambda>p. (p, the (map_of d p))) (slice_step (map fst d) start step) = ?part"
  proof -
    have "(fst x, the (map_of d (fst x))) = x" if "x \<in> set ?part" for x
    proof -
      from that have "x \<in> set d"
        using set_slice_step by fastforce
      with assms have "map_of d (fst x) = Some (snd x)"
        by (cases x) simp
      then show ?thesis by simp
    qed
    then show ?thesis
      by (simp add: slice_step_map map_idI)
  qed
  moreover have "distinct (map fst ?part)"
    using distinct_slice_step [OF assms, of start step] by (simp add: slice_step_map)
  ultimately show ?thesis
    by (simp add: sub_dict_def dict_update_distinct_items)
qed

lemma try_map_map_Inr:
  "(\<And>x. x \<in> set xs \<Longrightarrow> f (h x) = Inr (g x)) \<Longrightarrow> try_map f (map h xs) = Inr (map g xs)"
  by (induction xs) auto

lemma merge_batch_eq:
  assumes "distinct (map fst new_examples)" and "0 < num_workers"
  shows "merge_batch is_same num_workers examples new_examples =
     Inr (fold (\<lambda>d examples. dict_update examples d)
            (map (\<lambda>i. not_identical is_same (map fst examples) (slice_step new_examples i (nat num_workers)))
               [0..<nat num_workers])
            examples)"
proof -
  have 1: "try_map (sub_dict new_examples)
             (map (\<lambda>i. slice_step (map fst new_examples) i (nat num_workers)) [0..<nat num_workers]) =
           Inr (map (\<lambda>i. slice_step new_examples i (nat num_workers)) [0..<nat num_workers])"
    by (intro try_map_map_Inr sub_dict_slice assms(1))
  have 2: "try_map (discard_identical_worker is_same (map fst examples))
             (map (\<lambda>i. slice_step new_examples i (nat num_workers)) [0..<nat num_workers]) =
           Inr (map (\<lambda>i. not_identical is_same (map fst examples)
                  (slice_step new_examples i (nat num_workers))) [0..<nat num_workers])"
  proof (intro try_map_map_Inr)
    fix i
    have "distinct (map fst (slice_step new_examples i (nat num_workers)))"
      using distinct_slice_step [OF assms(1), of i "nat num_workers"] by (simp add: slice_step_map)
    then show "discard_identical_worker is_same (map fst examples)
            (slice_step new_examples i (nat num_workers)) =
          Inr (not_identical is_same (map fst examples) (slice_step new_examples i (nat num_workers)))"
      by (simp add: discard_identical_worker_eq not_identical_def)
  qed
  show ?thesis
    using assms(2) by (simp add: merge_batch_def 1 2)
qed

lemma set_update_distinct:
  "distinct (map fst d) \<Longrightarrow> set (AList.update k v d) = {x \<in> set d. fst x \<noteq> k} \<union> {(k, v)}"
  by (induction d) (auto simp: image_iff)

lemma set_dict_update:
  "distinct (map fst d) \<Longrightarrow> distinct (map fst e) \<Longrightarrow>
   set (dict_update d e) = {x \<in> set d. fst x \<notin> fst ` set e} \<union> set e"
proof (induction e arbitrary: d)
  case Nil
  then show ?case by (simp add: dict_update_def)
next
  case (Cons x e)
  obtain k v where x: "x = (k, v)" by (cases x)
  have "dict_update d (x # e) = dict_update (AList.update k v d) e"
    by (simp add: dict_update_def x)
  moreover have "set (dict_update (AList.update k v d) e) =
      {y \<in> set (AList.update k v d). fst y \<notin> fst ` set e} \<union> set e"
    using Cons.prems by (intro Cons.IH) (simp_all add: AList.distinct_update)
  moreover have "(k, b) \<notin> set e" for b
    using Cons.prems(2) x by (auto simp: image_iff)
  ultimately show ?case
    using set_update_distinct [OF Cons.prems(1), of k v] x by (auto simp: image_iff)
qed

lemma set_fold_dict_update:
  assumes "distinct (map fst new)"
  shows "distinct (map fst d) \<Longrightarrow> \<forall>part \<in> set parts. set part \<subseteq> set new \<and> distinct (map fst part) \<Longrightarrow>
     set (fold (\<lambda>part examples. dict_update examples part) parts d) =
       {x \<in> set d. fst x \<notin> fst ` (\<Union>part \<in> set parts. set part)} \<union> (\<Union>part \<in> set parts. set part)"
proof (induction parts arbitrary: d)
  case Nil
  then show ?case by simp
next
  case (Cons part parts)
  let ?d = "dict_update d part"
  have d: "distinct (map fst ?d)"
    using Cons.prems(1) by (rule distinct_dict_update)
  have step: "set ?d = {x \<in> set d. fst x \<notin> fst ` set part} \<union> set part"
    using Cons.prems by (intro set_dict_update) auto
  have IH: "set (fold (\<lambda>part examples. dict_update examples part) parts ?d) =
       {x \<in> set ?d. fst x \<notin> fst ` (\<Union>part \<in> set parts. set part)} \<union> (\<Union>part \<in> set parts. set part)"
    using Cons.prems(2) by (intro Cons.IH d) auto
  have same: "x \<in> (\<Union>part \<in> set parts. set part)"
    if "x \<in> set part" "fst x \<in> fst ` (\<Union>part \<in> set parts. set part)" for x
  proof -
    from that(2) obtain y where y: "y \<in> (\<Union>part \<in> set parts. set part)" "fst y = fst x"
      by (metis imageE)
    with Cons.prems(2) that(1) have "x \<in> set new" "y \<in> set new"
      by auto
    with assms y(2) have "x = y"
      by (metis eq_key_imp_eq_value prod.collapse)
    with y(1) show ?thesis by simp
  qed
  show ?case
    unfolding fold_simps IH step using same by auto
qed

lemma Union_slices:
  assumes "0 < n"
  shows "(\<Union>i \<in> {0..<n}. set (slice_step xs i n)) = set xs"
proof
  show "(\<Union>i \<in> {0..<n}. set (slice_step xs i n)) \<subseteq> set xs"
    using set_slice_step by fastforce
  show "set xs \<subseteq> (\<Union>i \<in> {0..<n}. set (slice_step xs i n))"
  proof
    fix x assume "x \<in> set xs"
    then obtain k where k: "k < length xs" "x = xs ! k"
      by (auto simp: in_set_conv_nth)
    have "xs ! k \<in> set (slice_step xs (k mod n) n)"
      using assms k(1) by (intro slice_step_covers) (simp_all add: minus_mod_eq_mult_div)
    moreover have "k mod n \<in> {0..<n}"
      using assms by simp
    ultimately show "x \<in> (\<Union>i \<in> {0..<n}. set (slice_step xs i n))"
      using k(2) by blast
  qed
qed

lemma merge_batch_entries:
  assumes "distinct (map fst examples)" and "distinct (map fst new_examples)" and "0 < num_workers"
  shows "\<exists>merged. merge_batch is_same num_workers examples new_examples = Inr merged \<and>
           distinct (map fst merged) \<and>
           set merged =
             {x \<in> set examples. fst x \<notin> fst ` set (not_identical is_same (map fst examples) new_examples)} \<union>
             set (not_identical is_same (map fst examples) new_examples)"
proof -
  let ?parts = "map (\<lambda>i. not_identical is_same (map fst examples) (slice_step new_examples i (nat num_workers)))
               [0..<nat num_workers]"
  let ?merged = "fold (\<lambda>d examples. dict_update examples d) ?parts examples"
  have eq: "merge_batch is_same num_workers examples new_examples = Inr ?merged"
    by (rule merge_batch_eq [OF assms(2,3)])
  have parts: "\<forall>part \<in> set ?parts. set part \<subseteq> set new_examples \<and> distinct (map fst part)"
  proof
    fix part assume "part \<in> set ?parts"
    then obtain i where i: "part = not_identical is_same (map fst examples) (slice_step new_examples i (nat num_workers))"
      by auto
    have "distinct (map fst (slice_step new_examples i (nat num_workers)))"
      using distinct_slice_step [OF assms(2), of i "nat num_workers"] by (simp add: slice_step_map)
    then have "distinct (map fst part)"
      unfolding i not_identical_def by (rule distinct_map_filter)
    moreover have "set part \<subseteq> set new_examples"
      unfolding i not_identical_def using set_slice_step [of new_examples i "nat num_workers"] by auto
    ultimately show "set part \<subseteq> set new_examples \<and> distinct (map fst part)"
      by simp
  qed
  have "(\<Union>part \<in> set ?parts. set part) =
        {x \<in> (\<Union>i \<in> {0..<nat num_workers}. set (slice_step new_examples i (nat num_workers))).
           \<not> identical_to_existing is_same (map fst examples) x}"
    by (auto simp: not_identical_def)
  then have union: "(\<Union>part \<in> set ?parts. set part) = set (not_identical is_same (map fst examples) new_examples)"
    using assms(3) by (simp add: Union_slices [of "nat num_workers"] not_identical_def)
  have "set ?merged = {x \<in> set examples. fst x \<notin> fst ` (\<Union>part \<in> set ?parts. set part)} \<union>
          (\<Union>part \<in> set ?parts. set part)"
    using assms(1) parts by (rule set_fold_dict_update [OF assms(2)])
  moreover have "distinct (map fst ?merged)"
  proof -
    have "distinct (map fst d) \<Longrightarrow> distinct (map fst (fold (\<lambda>d examples. dict_update examples d) ps d))"
      for ps and d :: "('a, 'b) dict"
      by (induction ps arbitrary: d) (simp_all add: distinct_dict_update)
    with assms(1) show ?thesis by blast
  qed
  ultimately show ?thesis
    using eq union by simp
qed


lemmas sample_defs = SORT_def REVERSE_def MINIMUM_def MAXIMUM_def HEAD_def prog_min_def
  prog_max_def prog_head_def prog_sort_min_def prog_reverse_min_def prog_reverse_max_def
  prog_reverse_head_def

text \<open>
  Claim C10. \<open>discard_identical_worker\<close> only removes entries: on every dictionary it
  returns a dictionary whose keys are keys of the input, every surviving program keeps
  exactly its example list, and no program is added.
\<close>

theorem discard_identical_worker_only_removes:
  assumes "distinct (map fst new_examples)"
  shows "\<exists>res. discard_identical_worker is_same existing_programs new_examples = Inr res \<and>
           distinct (map fst res) \<and>
           fst ` set res \<subseteq> fst ` set new_examples \<and>
           (\<forall>program \<in> fst ` set res. map_of res program = map_of new_examples program)"
proof -
  let ?res = "not_identical is_same existing_programs new_examples"
  have res: "discard_identical_worker is_same existing_programs new_examples = Inr ?res"
    using assms by (simp add: discard_identical_worker_eq not_identical_def)
  have d: "distinct (map fst ?res)"
    unfolding not_identical_def using assms by (rule distinct_map_filter)
  have sub: "set ?res \<subseteq> set new_examples"
    by (auto simp: not_identical_def)
  have "map_of ?res program = map_of new_examples program"
    if "program \<in> fst ` set ?res" for program
  proof -
    from that obtain ex where "(program, ex) \<in> set ?res"
      by auto
    with sub d assms show ?thesis
      by (metis map_of_is_SomeI subsetD)
  qed
  with res d sub show ?thesis
    by (intro exI [of _ ?res]) auto
qed

theorem discard_identical_worker_only_removes_witness:
  "distinct (map fst
     [(prog_sort_min, ex_min), (prog_reverse_max, ex_max), (prog_reverse_min, ex_min)]) \<and>
   discard_identical_worker sample_is_same [prog_head, prog_min]
     [(prog_sort_min, ex_min), (prog_reverse_max, ex_max), (prog_reverse_min, ex_min)] =
   Inr [(prog_reverse_max, ex_max)]"
proof -
  have d: "distinct (map fst
     [(prog_sort_min, ex_min), (prog_reverse_max, ex_max), (prog_reverse_min, ex_min)])"
    by (simp add: sample_defs)
  have "discard_identical_worker sample_is_same [prog_head, prog_min]
     [(prog_sort_min, ex_min), (prog_reverse_max, ex_max), (prog_reverse_min, ex_min)] =
   Inr [(prog_reverse_max, ex_max)]"
    by code_simp
  with d discard_identical_worker_only_removes [OF d, of sample_is_same "[prog_head, prog_min]"]
  show ?thesis by simp
qed

subsection \<open>Merging one batch\<close>

text \<open>
  Claim C2 as stated fails: the programs of one batch are compared with the programs
  already in the corpus and never with each other. With an empty history of minimum
  programs, \<open>SORT; MINIMUM\<close> and \<open>REVERSE; MINIMUM\<close> of one length-2 batch both enter the
  corpus, and the oracle judges them the same on the examples of either.
\<close>

theorem merge_batch_same_batch_counterexample:
  "merge_batch sample_is_same 2 [(prog_head, ex_head)]
     [(prog_sort_min, ex_min), (prog_reverse_max, ex_max), (prog_reverse_min, ex_min)] =
   Inr [(prog_head, ex_head), (prog_sort_min, ex_min), (prog_reverse_min, ex_min),
        (prog_reverse_max, ex_max)] \<and>
   prog_sort_min \<noteq> prog_reverse_min \<and>
   sample_is_same prog_sort_min prog_reverse_min ex_min \<and>
   sample_is_same prog_reverse_min prog_sort_min ex_min"
  by code_simp

text \<open>
  Claim C2, amended. After a batch is merged, every entry of the corpus is an entry the
  corpus had before or an entry of the batch whose program the oracle, on that program's
  own examples, judges different from every program the corpus had before; and every
  such entry of the batch is in the corpus, whatever the oracle says of it and another
  program of the same batch.
\<close>

theorem merge_batch_not_identical_to_existing:
  assumes "distinct (map fst examples)" and "distinct (map fst new_examples)"
    and "0 < num_workers"
  shows "\<exists>merged. merge_batch is_same num_workers examples new_examples = Inr merged \<and>
           (\<forall>(program, ex) \<in> set merged.
              (program, ex) \<in> set examples \<or>
              (program, ex) \<in> set new_examples \<and>
              (\<forall>other \<in> fst ` set examples. \<not> is_same program other ex)) \<and>
           (\<forall>(program, ex) \<in> set new_examples.
              (\<forall>other \<in> fst ` set examples. \<not> is_same program other ex) \<longrightarrow>
              (program, ex) \<in> set merged)"
proof -
  from merge_batch_entries [OF assms, of is_same] obtain merged where
    m: "merge_batch is_same num_workers examples new_examples = Inr merged"
      "set merged =
         {x \<in> set examples. fst x \<notin> fst ` set (not_identical is_same (map fst examples) new_examples)} \<union>
         set (not_identical is_same (map fst examples) new_examples)"
    by blast
  have n: "x \<in> set (not_identical is_same (map fst examples) new_examples) \<longleftrightarrow>
      x \<in> set new_examples \<and> (\<forall>other \<in> fst ` set examples. \<not> is_same (fst x) other (snd x))" for x
    by (simp add: not_identical_def identical_to_existing_def)
  have a: "\<forall>(program, ex) \<in> set merged.
              (program, ex) \<in> set examples \<or>
              (program, ex) \<in> set new_examples \<and>
              (\<forall>other \<in> fst ` set examples. \<not> is_same program other ex)"
  proof (rule ballI)
    fix x assume x: "x \<in> set merged"
    obtain program ex where p: "x = (program, ex)" by (cases x)
    from x have "x \<in> set examples \<or>
        x \<in> set (not_identical is_same (map fst examples) new_examples)"
      unfolding m(2) by blast
    then have "x \<in> set examples \<or> x \<in> set new_examples \<and>
        (\<forall>other \<in> fst ` set examples. \<not> is_same (fst x) other (snd x))"
      unfolding n .
    then show "case x of (program, ex) \<Rightarrow>
              (program, ex) \<in> set examples \<or>
              (program, ex) \<in> set new_examples \<and>
              (\<forall>other \<in> fst ` set examples. \<not> is_same program other ex)"
      by (simp add: p)
  qed
  have b: "\<forall>(program, ex) \<in> set new_examples.
              (\<forall>other \<in> fst ` set examples. \<not> is_same program other ex) \<longrightarrow>
              (program, ex) \<in> set merged"
  proof (rule ballI)
    fix x assume x: "x \<in> set new_examples"
    obtain program ex where p: "x = (program, ex)" by (cases x)
    have "x \<in> set merged"
      if "\<forall>other \<in> fst ` set examples. \<not> is_same (fst x) other (snd x)"
    proof -
      from x that have "x \<in> set (not_identical is_same (map fst examples) new_examples)"
        unfolding n by simp
      then show ?thesis
        unfolding m(2) by simp
    qed
    then show "case x of (program, ex) \<Rightarrow>
              (\<forall>other \<in> fst ` set examples. \<not> is_same program other ex) \<longrightarrow>
              (program, ex) \<in> set merged"
      by (simp add: p)
  qed
  from m(1) a b show ?thesis
    by (intro exI [of _ merged] conjI)
qed

theorem merge_batch_not_identical_to_existing_witness:
  "distinct (map fst [(prog_head, ex_head), (prog_min, ex_min)]) \<and>
   distinct (map fst
     [(prog_sort_min, ex_min), (prog_reverse_max, ex_max), (prog_reverse_head, ex_last)]) \<and>
   merge_batch sample_is_same 2 [(prog_head, ex_head), (prog_min, ex_min)]
     [(prog_sort_min, ex_min), (prog_reverse_max, ex_max), (prog_reverse_head, ex_last)] =
   Inr [(prog_head, ex_head), (prog_min, ex_min), (prog_reverse_head, ex_last),
        (prog_reverse_max, ex_max)]"
proof -
  have d1: "distinct (map fst [(prog_head, ex_head), (prog_min, ex_min)])"
    by (simp add: sample_defs)
  have d2: "distinct (map fst
     [(prog_sort_min, ex_min), (prog_reverse_max, ex_max), (prog_reverse_head, ex_last)])"
    by (simp add: sample_defs)
  have "merge_batch sample_is_same 2 [(prog_head, ex_head), (prog_min, ex_min)]
     [(prog_sort_min, ex_min), (prog_reverse_max, ex_max), (prog_reverse_head, ex_last)] =
   Inr [(prog_head, ex_head), (prog_min, ex_min), (prog_reverse_head, ex_last),
        (prog_reverse_max, ex_max)]"
    by code_simp
  with d1 d2 merge_batch_not_identical_to_existing [OF d1 d2, of 2 sample_is_same]
  show ?thesis by simp
qed

subsection \<open>Sampling the test programs\<close>

text \<open>
  Claim C3 describes what the sampling is meant to do; the code marks another index. With
  the candidates \<open>SORT; MINIMUM\<close>, \<open>REVERSE; MAXIMUM\<close>, \<open>REVERSE; MINIMUM\<close>,
  \<open>REVERSE; HEAD\<close> in that shuffled order, the first and the third are judged the same.
  The match is found at \<open>j = 1\<close> of the slice, so index 1 is marked: \<open>REVERSE; MAXIMUM\<close>,
  which is the same as no other candidate, is dropped from the test programs and from the
  training pool, while \<open>REVERSE; MINIMUM\<close>, the later program of the match, is not marked
  and becomes a test program beside \<open>SORT; MINIMUM\<close>.
\<close>

theorem sample_test_programs_marks_slice_index:
  "sample_test_programs sample_is_same test_corpus 10
     [prog_sort_min, prog_reverse_max, prog_reverse_min, prog_reverse_head] =
   Inr ([prog_sort_min, prog_reverse_min, prog_reverse_head], []) \<and>
   sample_is_same prog_sort_min prog_reverse_min ex_min \<and>
   \<not> sample_is_same prog_sort_min prog_reverse_max ex_min \<and>
   \<not> sample_is_same prog_reverse_max prog_reverse_min ex_max \<and>
   \<not> sample_is_same prog_reverse_max prog_reverse_head ex_max"
  by code_simp

subsection \<open>Loading a cache\<close>

lemma try_map_Inl: "x \<in> set xs \<Longrightarrow> isl (f x) \<Longrightarrow> isl (try_map f xs)"
  by (induction xs) (auto split: sum.splits)

lemma try_map_Inr_iff:
  "try_map f xs = Inr ys \<Longrightarrow> map f xs = map Inr ys"
  by (induction xs arbitrary: ys) (auto split: sum.splits)

lemma load_lines_Inl:
  "line \<in> set lines \<Longrightarrow> isl (program_parse line) \<or> isl (example_from_line line) \<Longrightarrow>
   isl (load_lines program_parse example_from_line lines examples)"
  by (induction lines arbitrary: examples) (auto split: sum.splits)

lemma load_cache_malformed_Inl:
  assumes "x \<in> set file_lines" and "malformed json_loads program_parse example_from_line x"
  shows "isl (load_cache json_loads program_parse example_from_line file_lines)"
proof (cases "try_map json_loads file_lines")
  case (Inl err)
  then show ?thesis by (simp add: load_cache_def)
next
  case (Inr lines)
  then have m: "map json_loads file_lines = map Inr lines"
    by (simp add: try_map_Inr_iff)
  from assms(1) obtain i where i: "i < length file_lines" "file_lines ! i = x"
    by (auto simp: in_set_conv_nth)
  from m have "length lines = length file_lines"
    by (metis length_map)
  with m i have "json_loads x = Inr (lines ! i)" "lines ! i \<in> set lines"
    by (metis nth_map, simp)
  with assms(2) have "isl (load_lines program_parse example_from_line lines [])"
    by (intro load_lines_Inl [of "lines ! i"]) (auto simp: malformed_def)
  with Inr show ?thesis
    by (simp add: load_cache_def)
qed

lemma load_lines_Inr:
  "load_lines program_parse example_from_line lines examples = Inr d \<Longrightarrow>
   (\<forall>line \<in> set lines. \<exists>program p_examples. program_parse line = Inr program \<and>
      example_from_line line = Inr p_examples \<and> program \<in> fst ` set d) \<and>
   fst ` set examples \<subseteq> fst ` set d"
proof (induction lines arbitrary: examples)
  case Nil
  then show ?case by simp
next
  case (Cons line lines)
  from Cons.prems obtain program p_examples where
    p: "program_parse line = Inr program" "example_from_line line = Inr p_examples"
       "load_lines program_parse example_from_line lines (AList.update program p_examples examples) = Inr d"
    by (auto split: sum.splits)
  from Cons.IH [OF p(3)] p(1,2) show ?case
    by (auto simp: AList.dom_update)
qed



text \<open>
  Claim C8. If a persisted record is malformed, \<open>load_cache\<close> raises, and the builder
  ends with the same exception whatever the generation phase would return: the loop is
  never entered. If \<open>load_cache\<close> returns, no record was malformed and the program of
  every record is a key of the dictionary it returns.
\<close>

theorem load_cache_all_or_nothing:
  "(case load_cache json_loads program_parse example_from_line file_lines of
      Inl err \<Rightarrow>
        \<forall>is_same gen_programs num_train num_test max_train_len num_workers.
          build_corpus is_same gen_programs json_loads program_parse example_from_line
            num_train num_test max_train_len num_workers (Some file_lines) = Inl err
    | Inr examples \<Rightarrow>
        \<forall>x \<in> set file_lines.
          \<not> malformed json_loads program_parse example_from_line x \<and>
          (\<exists>line program. json_loads x = Inr line \<and> program_parse line = Inr program \<and>
             program \<in> fst ` set examples)) \<and>
   ((\<exists>x \<in> set file_lines. malformed json_loads program_parse example_from_line x) \<longrightarrow>
    isl (load_cache json_loads program_parse example_from_line file_lines))"
proof (intro conjI impI)
  show "isl (load_cache json_loads program_parse example_from_line file_lines)"
    if "\<exists>x \<in> set file_lines. malformed json_loads program_parse example_from_line x"
    using that load_cache_malformed_Inl by blast
  show "case load_cache json_loads program_parse example_from_line file_lines of
      Inl err \<Rightarrow>
        \<forall>is_same gen_programs num_train num_test max_train_len num_workers.
          build_corpus is_same gen_programs json_loads program_parse example_from_line
            num_train num_test max_train_len num_workers (Some file_lines) = Inl err
    | Inr examples \<Rightarrow>
        \<forall>x \<in> set file_lines.
          \<not> malformed json_loads program_parse example_from_line x \<and>
          (\<exists>line program. json_loads x = Inr line \<and> program_parse line = Inr program \<and>
             program \<in> fst ` set examples)"
  proof (cases "load_cache json_loads program_parse example_from_line file_lines")
    case (Inl err)
    then show ?thesis
      by (simp add: build_corpus_def)
  next
    case (Inr examples)
    then obtain lines where lines: "try_map json_loads file_lines = Inr lines"
      "load_lines program_parse example_from_line lines [] = Inr examples"
      by (auto simp: load_cache_def split: sum.splits)
    have "\<not> malformed json_loads program_parse example_from_line x \<and>
          (\<exists>line program. json_loads x = Inr line \<and> program_parse line = Inr program \<and>
             program \<in> fst ` set examples)" if x: "x \<in> set file_lines" for x
    proof -
      have nm: "\<not> malformed json_loads program_parse example_from_line x"
        using load_cache_malformed_Inl [OF x, of json_loads program_parse example_from_line] Inr
        by auto
      from lines(1) have m: "map json_loads file_lines = map Inr lines"
        by (rule try_map_Inr_iff)
      from x obtain i where i: "i < length file_lines" "file_lines ! i = x"
        by (auto simp: in_set_conv_nth)
      from m have "length lines = length file_lines"
        by (metis length_map)
      with m i have l: "json_loads x = Inr (lines ! i)" "lines ! i \<in> set lines"
        by (metis nth_map, simp)
      from load_lines_Inr [OF lines(2)] l(2) obtain program where
        "program_parse (lines ! i) = Inr program" "program \<in> fst ` set examples"
        by blast
      with l(1) nm show ?thesis
        by blast
    qed
    with Inr show ?thesis
      by simp
  qed
qed

theorem load_cache_all_or_nothing_witness:
  "load_cache sample_json_loads sample_program_parse sample_example_from_line
     [''MINIMUM'', ''{'', ''HEAD''] = Inl JSONDecodeError \<and>
   build_corpus sample_is_same sample_gen_programs sample_json_loads sample_program_parse
     sample_example_from_line 100 20 2 2 (Some [''MINIMUM'', ''{'', ''HEAD'']) =
     Inl JSONDecodeError \<and>
   load_cache sample_json_loads sample_program_parse sample_example_from_line
     [''MINIMUM'', ''SORT''] = Inl ParseError \<and>
   load_cache sample_json_loads sample_program_parse sample_example_from_line
     [''MINIMUM'', ''HEAD''] = Inr [(prog_min, ex_min), (prog_head, ex_head)]"
proof -
  have 1: "load_cache sample_json_loads sample_program_parse sample_example_from_line
     [''MINIMUM'', ''{'', ''HEAD''] = Inl JSONDecodeError"
    by code_simp
  have 2: "load_cache sample_json_loads sample_program_parse sample_example_from_line
     [''MINIMUM'', ''SORT''] = Inl ParseError"
    by code_simp
  have 3: "load_cache sample_json_loads sample_program_parse sample_example_from_line
     [''MINIMUM'', ''HEAD''] = Inr [(prog_min, ex_min), (prog_head, ex_head)]"
    by code_simp
  from load_cache_all_or_nothing [of sample_json_loads sample_program_parse
      sample_example_from_line "[''MINIMUM'', ''{'', ''HEAD'']"]
  have "build_corpus sample_is_same sample_gen_programs sample_json_loads sample_program_parse
     sample_example_from_line 100 20 2 2 (Some [''MINIMUM'', ''{'', ''HEAD'']) =
     Inl JSONDecodeError"
    unfolding 1 by simp
  with 1 2 3 show ?thesis
    by simp
qed

subsection \<open>Resuming from a cache\<close>

lemma fold_dict_update_append:
  "\<forall>part \<in> set parts. fst ` set d \<inter> fst ` set part = {} \<Longrightarrow>
   fold (\<lambda>part examples. dict_update examples part) parts (d @ a) =
   d @ fold (\<lambda>part examples. dict_update examples part) parts a"
  by (induction parts arbitrary: a) (simp_all add: dict_update_append)

lemma set_fold_dict_update_subset:
  "set (fold (\<lambda>part examples. dict_update examples part) parts a) \<subseteq>
   set a \<union> (\<Union>part \<in> set parts. set part)"
proof (induction parts arbitrary: a)
  case Nil
  then show ?case by simp
next
  case (Cons part parts)
  from Cons.IH [of "dict_update a part"] set_dict_update_subset [of a part]
  show ?case by auto
qed

lemma merge_batch_appends:
  assumes "distinct (map fst new_examples)"
    and "fst ` set examples \<inter> fst ` set new_examples = {}"
    and "0 < num_workers"
  shows "\<exists>added. merge_batch is_same num_workers examples new_examples = Inr (examples @ added) \<and>
           set added \<subseteq> set new_examples"
proof -
  let ?parts = "map (\<lambda>i. not_identical is_same (map fst examples)
                   (slice_step new_examples i (nat num_workers))) [0..<nat num_workers]"
  let ?added = "fold (\<lambda>part examples. dict_update examples part) ?parts []"
  have sub: "set part \<subseteq> set new_examples" if "part \<in> set ?parts" for part
  proof -
    from that obtain i where
      "part = not_identical is_same (map fst examples) (slice_step new_examples i (nat num_workers))"
      by auto
    then have "set part \<subseteq> set (slice_step new_examples i (nat num_workers))"
      by (simp add: not_identical_def)
    with set_slice_step [of new_examples i "nat num_workers"] show ?thesis
      by blast
  qed
  have "\<forall>part \<in> set ?parts. fst ` set examples \<inter> fst ` set part = {}"
  proof
    fix part assume "part \<in> set ?parts"
    then have "fst ` set part \<subseteq> fst ` set new_examples"
      using sub by (intro image_mono)
    with assms(2) show "fst ` set examples \<inter> fst ` set part = {}"
      by blast
  qed
  from fold_dict_update_append [OF this, of "[]"]
  have "merge_batch is_same num_workers examples new_examples = Inr (examples @ ?added)"
    by (simp add: merge_batch_eq [OF assms(1,3)])
  moreover have "set ?added \<subseteq> set new_examples"
    using set_fold_dict_update_subset [of ?parts "[]"] sub by auto
  ultimately show ?thesis
    by blast
qed

lemma train_loop_appends:
  assumes "generates_lengths gen_programs" and "0 < num_workers"
  shows "distinct lens \<Longrightarrow> \<forall>p \<in> fst ` set examples. int (len p) \<notin> set lens \<Longrightarrow>
     \<exists>added. train_loop is_same gen_programs num_train num_test num_workers lens examples =
         Inr (examples @ added) \<and>
       (\<forall>p \<in> fst ` set added. int (len p) \<in> set lens)"
proof (induction lens arbitrary: examples)
  case Nil
  then show ?case by simp
next
  case (Cons program_len lens)
  let ?new = "gen_programs program_len (quota num_train num_test program_len)"
  from assms(1) have new1: "distinct (map fst ?new)"
    unfolding generates_lengths_def by blast
  from assms(1) have new2: "\<forall>p \<in> fst ` set ?new. int (len p) = program_len"
    unfolding generates_lengths_def by blast
  have disj: "fst ` set examples \<inter> fst ` set ?new = {}"
  proof (rule ccontr)
    assume "fst ` set examples \<inter> fst ` set ?new \<noteq> {}"
    then obtain p where p: "p \<in> fst ` set examples" "p \<in> fst ` set ?new"
      by blast
    from p(2) new2 have "int (len p) = program_len"
      by blast
    moreover from p(1) Cons.prems(2) have "int (len p) \<noteq> program_len"
      by auto
    ultimately show False
      by simp
  qed
  from merge_batch_appends [OF new1 disj assms(2), of is_same]
  obtain added where added:
    "merge_batch is_same num_workers examples ?new = Inr (examples @ added)"
    "set added \<subseteq> set ?new"
    by blast
  have len_added: "int (len p) = program_len" if "p \<in> fst ` set added" for p
  proof -
    from that added(2) have "p \<in> fst ` set ?new"
      by blast
    with new2 show ?thesis
      by blast
  qed
  have inv: "\<forall>p \<in> fst ` set (examples @ added). int (len p) \<notin> set lens"
  proof
    fix p assume "p \<in> fst ` set (examples @ added)"
    then consider "p \<in> fst ` set examples" | "p \<in> fst ` set added"
      by auto
    then show "int (len p) \<notin> set lens"
    proof cases
      case 1
      with Cons.prems(2) show ?thesis by auto
    next
      case 2
      with len_added Cons.prems(1) show ?thesis by auto
    qed
  qed
  from Cons.prems(1) have "distinct lens"
    by simp
  from Cons.IH [OF this inv]
  obtain added' where added':
    "train_loop is_same gen_programs num_train num_test num_workers lens (examples @ added) =
       Inr ((examples @ added) @ added')"
    "\<forall>p \<in> fst ` set added'. int (len p) \<in> set lens"
    by blast
  have "train_loop is_same gen_programs num_train num_test num_workers (program_len # lens)
          examples = Inr (examples @ (added @ added'))"
    using added(1) added'(1) by simp
  moreover have "\<forall>p \<in> fst ` set (added @ added'). int (len p) \<in> set (program_len # lens)"
  proof
    fix p assume "p \<in> fst ` set (added @ added')"
    then consider "p \<in> fst ` set added" | "p \<in> fst ` set added'"
      by auto
    then show "int (len p) \<in> set (program_len # lens)"
    proof cases
      case 1
      with len_added show ?thesis by auto
    next
      case 2
      with added'(2) show ?thesis by auto
    qed
  qed
  ultimately show ?case
    by blast
qed

lemma train_loop_cong:
  "\<forall>program_len \<in> set lens. \<forall>num_programs.
      gen_programs' program_len num_programs = gen_programs program_len num_programs \<Longrightarrow>
   train_loop is_same gen_programs' num_train num_test num_workers lens examples =
   train_loop is_same gen_programs num_train num_test num_workers lens examples"
proof (induction lens arbitrary: examples)
  case Nil
  then show ?case by simp
next
  case (Cons program_len lens)
  then have "gen_programs' program_len (quota num_train num_test program_len) =
      gen_programs program_len (quota num_train num_test program_len)"
    by simp
  moreover have "train_loop is_same gen_programs' num_train num_test num_workers lens ex =
      train_loop is_same gen_programs num_train num_test num_workers lens ex" for ex
    using Cons.prems by (intro Cons.IH) simp
  ultimately show ?case
    by (simp split: sum.splits)
qed

lemma py_max_ge: "py_max xs = Inr k \<Longrightarrow> x \<in> set xs \<Longrightarrow> x \<le> k"
proof -
  assume a: "py_max xs = Inr k" "x \<in> set xs"
  then obtain y ys where xs: "xs = y # ys" "k = fold max ys y"
    by (auto simp: py_max_def split: list.splits)
  moreover have "fold max ys y = Max (set (y # ys))"
    by (rule Max.set_eq_fold [symmetric])
  ultimately have "k = Max (set xs)"
    by (simp only:)
  with a(2) show ?thesis
    by simp
qed


lemma train_loop_no_workers:
  "num_workers < 1 \<Longrightarrow>
   train_loop is_same gen_programs num_train num_test num_workers lens examples =
     (if lens = [] then Inr examples else Inl ValueError)"
  by (cases lens) (simp_all add: merge_batch_def)

text \<open>
  Claim C6. When the loaded cache has maximum program length \<open>k\<close>, the builder runs the
  loop for the lengths \<open>k + 1\<close> to \<open>max_train_len\<close> only: its result does not depend on
  what the generation phase would return for any other length. With at least one worker
  the builder returns, and the final corpus is the cache, entry by entry and in its order,
  followed by entries of lengths between \<open>k + 1\<close> and \<open>max_train_len\<close>; this holds for every
  oracle, so no cached entry is validated again. With fewer than one worker the first pass
  of the loop raises \<^verbatim>\<open>ValueError\<close>, and the builder returns, with the cache as the corpus,
  only when there is no length left to generate.
\<close>

theorem resume_keeps_cache:
  assumes "load_cache json_loads program_parse example_from_line file_lines = Inr cache"
    and "py_max (map (\<lambda>k. int (len k)) (map fst cache)) = Inr k"
    and "generates_lengths gen_programs"
  shows "(0 < num_workers \<longrightarrow>
       (\<exists>added.
          build_corpus is_same gen_programs json_loads program_parse example_from_line
            num_train num_test max_train_len num_workers (Some file_lines) =
            Inr (cache @ added) \<and>
          (\<forall>p \<in> fst ` set added. k < int (len p) \<and> int (len p) \<le> max_train_len))) \<and>
      (num_workers < 1 \<longrightarrow>
       build_corpus is_same gen_programs json_loads program_parse example_from_line
         num_train num_test max_train_len num_workers (Some file_lines) =
         (if k < max_train_len then Inl ValueError else Inr cache)) \<and>
      build_corpus is_same gen_programs json_loads program_parse example_from_line
        num_train num_test max_train_len num_workers (Some file_lines) =
        train_loop is_same gen_programs num_train num_test num_workers [k + 1..max_train_len]
          cache \<and>
      (\<forall>gen_programs'.
         (\<forall>program_len num_programs.
            k < program_len \<and> program_len \<le> max_train_len \<longrightarrow>
            gen_programs' program_len num_programs = gen_programs program_len num_programs) \<longrightarrow>
         build_corpus is_same gen_programs' json_loads program_parse example_from_line
           num_train num_test max_train_len num_workers (Some file_lines) =
         build_corpus is_same gen_programs json_loads program_parse example_from_line
           num_train num_test max_train_len num_workers (Some file_lines))"
proof -
  have eq: "build_corpus is_same g json_loads program_parse example_from_line
          num_train num_test max_train_len num_workers (Some file_lines) =
        train_loop is_same g num_train num_test num_workers [k + 1..max_train_len] cache" for g
    using assms(1,2) by (simp add: build_corpus_def)
  have inv: "\<forall>p \<in> fst ` set cache. int (len p) \<notin> set [k + 1..max_train_len]"
  proof
    fix p assume "p \<in> fst ` set cache"
    then have "int (len p) \<in> set (map (\<lambda>k. int (len k)) (map fst cache))"
      by auto
    with py_max_ge [OF assms(2)] have "int (len p) \<le> k"
      by blast
    then show "int (len p) \<notin> set [k + 1..max_train_len]"
      by simp
  qed
  have d: "distinct [k + 1..max_train_len]"
    by simp
  have workers: "\<exists>added.
      build_corpus is_same gen_programs json_loads program_parse example_from_line
        num_train num_test max_train_len num_workers (Some file_lines) = Inr (cache @ added) \<and>
      (\<forall>p \<in> fst ` set added. k < int (len p) \<and> int (len p) \<le> max_train_len)"
    if w: "0 < num_workers"
  proof -
    from train_loop_appends [OF assms(3) w d inv, of is_same num_train num_test]
    obtain added where added:
      "train_loop is_same gen_programs num_train num_test num_workers [k + 1..max_train_len]
         cache = Inr (cache @ added)"
      "\<forall>p \<in> fst ` set added. int (len p) \<in> set [k + 1..max_train_len]"
      by blast
    have "\<forall>p \<in> fst ` set added. k < int (len p) \<and> int (len p) \<le> max_train_len"
    proof
      fix p assume "p \<in> fst ` set added"
      with added(2) have "int (len p) \<in> set [k + 1..max_train_len]"
        by blast
      then show "k < int (len p) \<and> int (len p) \<le> max_train_len"
        by simp
    qed
    with added(1) show ?thesis
      unfolding eq by blast
  qed
  have no_workers:
    "build_corpus is_same gen_programs json_loads program_parse example_from_line
       num_train num_test max_train_len num_workers (Some file_lines) =
       (if k < max_train_len then Inl ValueError else Inr cache)"
    if "num_workers < 1"
    unfolding eq using that by (simp add: train_loop_no_workers)
  have frame: "build_corpus is_same g json_loads program_parse example_from_line
        num_train num_test max_train_len num_workers (Some file_lines) =
      build_corpus is_same gen_programs json_loads program_parse example_from_line
        num_train num_test max_train_len num_workers (Some file_lines)"
    if "\<forall>program_len num_programs.
            k < program_len \<and> program_len \<le> max_train_len \<longrightarrow>
            g program_len num_programs = gen_programs program_len num_programs" for g
    unfolding eq using that by (intro train_loop_cong) simp
  show ?thesis
  proof (intro conjI allI impI)
    show "\<exists>added.
      build_corpus is_same gen_programs json_loads program_parse example_from_line
        num_train num_test max_train_len num_workers (Some file_lines) = Inr (cache @ added) \<and>
      (\<forall>p \<in> fst ` set added. k < int (len p) \<and> int (len p) \<le> max_train_len)"
      if "0 < num_workers"
      using that by (rule workers)
    show "build_corpus is_same gen_programs json_loads program_parse example_from_line
       num_train num_test max_train_len num_workers (Some file_lines) =
       (if k < max_train_len then Inl ValueError else Inr cache)"
      if "num_workers < 1"
      using that by (rule no_workers)
    show "build_corpus is_same gen_programs json_loads program_parse example_from_line
        num_train num_test max_train_len num_workers (Some file_lines) =
        train_loop is_same gen_programs num_train num_test num_workers [k + 1..max_train_len]
          cache"
      by (rule eq)
    show "build_corpus is_same g json_loads program_parse example_from_line
           num_train num_test max_train_len num_workers (Some file_lines) =
         build_corpus is_same gen_programs json_loads program_parse example_from_line
           num_train num_test max_train_len num_workers (Some file_lines)"
      if "\<forall>program_len num_programs.
            k < program_len \<and> program_len \<le> max_train_len \<longrightarrow>
            g program_len num_programs = gen_programs program_len num_programs" for g
      using that by (rule frame)
  qed
qed

theorem resume_keeps_cache_witness:
  "load_cache sample_json_loads sample_program_parse sample_example_from_line
     [''MINIMUM'', ''HEAD''] = Inr [(prog_min, ex_min), (prog_head, ex_head)] \<and>
   py_max (map (\<lambda>k. int (len k)) (map fst [(prog_min, ex_min), (prog_head, ex_head)])) = Inr 1 \<and>
   build_corpus sample_is_same sample_gen_programs sample_json_loads sample_program_parse
     sample_example_from_line 100 20 2 2 (Some [''MINIMUM'', ''HEAD'']) =
     Inr ([(prog_min, ex_min), (prog_head, ex_head)] @ [(prog_reverse_head, ex_last)]) \<and>
   build_corpus sample_is_same sample_gen_programs sample_json_loads sample_program_parse
     sample_example_from_line 100 20 2 0 (Some [''MINIMUM'', ''HEAD'']) = Inl ValueError \<and>
   build_corpus sample_is_same sample_gen_programs sample_json_loads sample_program_parse
     sample_example_from_line 100 20 1 0 (Some [''MINIMUM'', ''HEAD'']) =
     Inr [(prog_min, ex_min), (prog_head, ex_head)]"
proof -
  have 1: "load_cache sample_json_loads sample_program_parse sample_example_from_line
     [''MINIMUM'', ''HEAD''] = Inr [(prog_min, ex_min), (prog_head, ex_head)]"
    by code_simp
  have 2: "py_max (map (\<lambda>k. int (len k)) (map fst [(prog_min, ex_min), (prog_head, ex_head)])) =
      Inr 1"
    by code_simp
  have 3: "generates_lengths sample_gen_programs"
    by (auto simp: generates_lengths_def sample_gen_programs_def len_def sample_defs)
  have 4: "build_corpus sample_is_same sample_gen_programs sample_json_loads sample_program_parse
     sample_example_from_line 100 20 2 2 (Some [''MINIMUM'', ''HEAD'']) =
     Inr ([(prog_min, ex_min), (prog_head, ex_head)] @ [(prog_reverse_head, ex_last)])"
    by code_simp
  from resume_keeps_cache [OF 1 2 3, of 2 sample_is_same 100 20 2]
    resume_keeps_cache [OF 1 2 3, of 0 sample_is_same 100 20 2]
    resume_keeps_cache [OF 1 2 3, of 0 sample_is_same 100 20 1] 1 2 4
  show ?thesis
    by simp
qed

subsection \<open>Free variables first\<close>

lemma move_free_gen:
  "distinct (F @ N @ R) \<Longrightarrow> \<forall>x \<in> set F. in_free fr x \<Longrightarrow> \<forall>x \<in> set N. \<not> in_free fr x \<Longrightarrow>
   move_free fr (F @ N @ R) (length F + length N) =
     rev (filter (in_free fr) R) @ F @ N @ filter (\<lambda>x. \<not> in_free fr x) R"
proof (induction R arbitrary: F N)
  case Nil
  then show ?case
    by (subst move_free.simps) simp
next
  case (Cons x R)
  have pos: "length F + length N < length (F @ N @ x # R)"
    by simp
  have nth: "(F @ N @ x # R) ! (length F + length N) = x"
    by (metis append.assoc length_append nth_append_length)
  show ?case
  proof (cases "in_free fr x")
    case True
    from Cons.prems(1) have "x \<notin> set F" "x \<notin> set N"
      by auto
    then have rm: "remove1 x (F @ N @ x # R) = F @ N @ R"
      by (simp add: remove1_append)
    have "move_free fr (F @ N @ x # R) (length F + length N) =
          move_free fr ((x # F) @ N @ R) (length (x # F) + length N)"
      using True pos nth rm by (subst move_free.simps) simp
    also have "\<dots> = rev (filter (in_free fr) R) @ (x # F) @ N @ filter (\<lambda>x. \<not> in_free fr x) R"
      using Cons.prems True by (intro Cons.IH) auto
    finally show ?thesis
      using True by simp
  next
    case False
    have "move_free fr (F @ N @ x # R) (length F + length N) =
          move_free fr (F @ (N @ [x]) @ R) (length F + length (N @ [x]))"
      using False pos nth by (subst move_free.simps) simp
    also have "\<dots> = rev (filter (in_free fr) R) @ F @ (N @ [x]) @ filter (\<lambda>x. \<not> in_free fr x) R"
      using Cons.prems False by (intro Cons.IH) auto
    finally show ?thesis
      using False by simp
  qed
qed

lemma move_free_eq:
  "distinct vars \<Longrightarrow>
   move_free fr vars 0 = rev (filter (in_free fr) vars) @ filter (\<lambda>x. \<not> in_free fr x) vars"
  using move_free_gen [of "[]" "[]" vars fr] by simp

lemma move_free_props:
  assumes "distinct vars"
  shows "distinct (move_free fr vars 0)" and "set (move_free fr vars 0) = set vars"
    and "free_first fr (move_free fr vars 0)"
  using assms by (auto simp: move_free_eq free_first_def filter_empty_conv)

lemma move_free_indices_props:
  "\<forall>ty. distinct (m ty) \<Longrightarrow>
   (\<forall>ty. distinct (move_free_indices fr ts m ty) \<and>
      set (move_free_indices fr ts m ty) = set (m ty)) \<and>
   (\<forall>ty. ty \<in> set ts \<or> free_first fr (m ty) \<longrightarrow> free_first fr (move_free_indices fr ts m ty))"
proof (induction ts arbitrary: m)
  case Nil
  then show ?case
    by (simp add: move_free_indices_def)
next
  case (Cons t ts)
  let ?m = "m(t := move_free fr (m t) 0)"
  have step: "move_free_indices fr (t # ts) m = move_free_indices fr ts ?m"
    by (simp add: move_free_indices_def)
  have d: "\<forall>ty. distinct (?m ty)"
    using Cons.prems by (simp add: move_free_props)
  have s: "set (?m ty) = set (m ty)" for ty
    using Cons.prems by (simp add: move_free_props)
  have f: "free_first fr (?m ty)" if "ty = t \<or> free_first fr (m ty)" for ty
    using that Cons.prems by (auto simp: move_free_props)
  from Cons.IH [OF d] have IH:
    "\<And>ty. distinct (move_free_indices fr ts ?m ty)"
    "\<And>ty. set (move_free_indices fr ts ?m ty) = set (?m ty)"
    "\<And>ty. ty \<in> set ts \<or> free_first fr (?m ty) \<Longrightarrow> free_first fr (move_free_indices fr ts ?m ty)"
    by blast+
  show ?case
    unfolding step using IH s f by (metis set_ConsD)
qed

lemma fold_index_set:
  "set (fold (\<lambda>(i, ty) type_to_vars. type_to_vars(ty := Var i # type_to_vars ty))
          (List.enumerate n ts) m ty) =
   set (m ty) \<union> {Var i | i. n \<le> i \<and> i < n + length ts \<and> ts ! (i - n) = ty}"
proof (induction ts arbitrary: n m)
  case Nil
  then show ?case by auto
next
  case (Cons t ts)
  let ?m = "m(t := Var n # m t)"
  have "{Var i | i. n \<le> i \<and> i < n + length (t # ts) \<and> (t # ts) ! (i - n) = ty} =
        (if t = ty then {Var n} else {}) \<union>
        {Var i | i. Suc n \<le> i \<and> i < Suc n + length ts \<and> ts ! (i - Suc n) = ty}"
    (is "?A = ?B")
  proof
    show "?A \<subseteq> ?B"
    proof
      fix x assume "x \<in> ?A"
      then obtain i where i: "x = Var i" "n \<le> i" "i < n + length (t # ts)" "(t # ts) ! (i - n) = ty"
        by blast
      show "x \<in> ?B"
      proof (cases "i = n")
        case True
        with i show ?thesis by simp
      next
        case False
        with i have "Suc n \<le> i" "i - n = Suc (i - Suc n)"
          by simp_all
        with i show ?thesis by simp
      qed
    qed
    show "?B \<subseteq> ?A"
    proof
      fix x assume "x \<in> ?B"
      then consider "t = ty" "x = Var n"
        | i where "x = Var i" "Suc n \<le> i" "i < Suc n + length ts" "ts ! (i - Suc n) = ty"
        by (auto split: if_splits)
      then show "x \<in> ?A"
      proof cases
        case 1
        then show ?thesis by simp
      next
        case 2
        then have "i - n = Suc (i - Suc n)"
          by simp
        with 2 show ?thesis by simp
      qed
    qed
  qed
  with Cons.IH [of "Suc n" ?m] show ?case
    by auto
qed

lemma fold_index_distinct:
  "distinct (m ty) \<Longrightarrow> \<forall>i. Var i \<in> set (m ty) \<longrightarrow> i < n \<Longrightarrow>
   distinct (fold (\<lambda>(i, ty) type_to_vars. type_to_vars(ty := Var i # type_to_vars ty))
          (List.enumerate n ts) m ty)"
proof (induction ts arbitrary: n m)
  case Nil
  then show ?case by simp
next
  case (Cons t ts)
  let ?m = "m(t := Var n # m t)"
  have "distinct (?m ty)"
    using Cons.prems by auto
  moreover have "\<forall>i. Var i \<in> set (?m ty) \<longrightarrow> i < Suc n"
    using Cons.prems by (auto simp: less_Suc_eq)
  ultimately show ?case
    using Cons.IH [of ?m "Suc n"] by simp
qed

lemma set_index_vars:
  "set (index_vars ts ty) = {Var i | i. i < length ts \<and> ts ! i = ty}"
  using fold_index_set [of 0 ts "\<lambda>ty. []" ty] by (simp add: index_vars_def)

lemma distinct_index_vars: "distinct (index_vars ts ty)"
  using fold_index_distinct [of "\<lambda>ty. []" ty 0 ts] by (simp add: index_vars_def)

lemma add_lambdas_eq:
  "add_lambdas lambdas m ty = m ty @ map Lambda (filter (\<lambda>f. lambda_type f = ty) lambdas)"
proof (induction lambdas arbitrary: m)
  case Nil
  then show ?case by (simp add: add_lambdas_def)
next
  case (Cons l ls)
  have "add_lambdas (l # ls) m = add_lambdas ls (m(lambda_type l := m (lambda_type l) @ [Lambda l]))"
    by (simp add: add_lambdas_def)
  then show ?case
    by (simp add: Cons.IH)
qed

lemma build_type_to_vars_split:
  "\<exists>vars. build_type_to_vars lambdas program_len p ty =
       filter (in_free (get_free_indices p program_len)) vars @
       filter (\<lambda>x. \<not> in_free (get_free_indices p program_len) x) vars @
       map Lambda (filter (\<lambda>f. lambda_type f = ty) lambdas) \<and>
     distinct vars \<and>
     set vars = {Var i | i. i < length (var_types p) \<and> var_types p ! i = ty}"
proof -
  let ?fr = "get_free_indices p program_len"
  let ?m = "index_vars (var_types p)"
  let ?vars = "move_free_indices ?fr (var_types p) ?m ty"
  have d: "\<forall>ty. distinct (?m ty)"
    by (simp add: distinct_index_vars)
  note props = move_free_indices_props [OF d, of ?fr "var_types p"]
  have "free_first ?fr ?vars"
  proof (cases "ty \<in> set (var_types p)")
    case True
    with props show ?thesis by blast
  next
    case False
    then have "set (?m ty) = {}"
      unfolding set_index_vars by auto
    then have "free_first ?fr (?m ty)"
      by (simp add: free_first_def)
    with props show ?thesis by blast
  qed
  then have "build_type_to_vars lambdas program_len p ty =
       filter (in_free ?fr) ?vars @ filter (\<lambda>x. \<not> in_free ?fr x) ?vars @
       map Lambda (filter (\<lambda>f. lambda_type f = ty) lambdas)"
    by (simp add: build_type_to_vars_def add_lambdas_eq free_first_def)
  moreover have "distinct ?vars" "set ?vars = set (?m ty)"
    using props by blast+
  ultimately show ?thesis
    unfolding set_index_vars by blast
qed

text \<open>
  Claim C4. In the index that a recursion step of the enumerator builds, every free
  variable index stands before every variable index of the same type that is not free:
  if position \<open>a\<close> of a type's candidate list holds a free index and position \<open>b\<close> holds
  an index that is not free, then \<open>a < b\<close>.
\<close>

theorem free_indices_first:
  assumes "a < length (build_type_to_vars lambdas program_len p ty)"
    and "b < length (build_type_to_vars lambdas program_len p ty)"
    and "build_type_to_vars lambdas program_len p ty ! a = Var i"
    and "build_type_to_vars lambdas program_len p ty ! b = Var j"
    and "i \<in> get_free_indices p program_len"
    and "j \<notin> get_free_indices p program_len"
  shows "a < b"
proof -
  let ?fr = "get_free_indices p program_len"
  from build_type_to_vars_split [of lambdas program_len p ty] obtain vars where
    v: "build_type_to_vars lambdas program_len p ty =
       filter (in_free ?fr) vars @ filter (\<lambda>x. \<not> in_free ?fr x) vars @
       map Lambda (filter (\<lambda>f. lambda_type f = ty) lambdas)"
    by blast
  let ?A = "filter (in_free ?fr) vars"
  let ?B = "filter (\<lambda>x. \<not> in_free ?fr x) vars"
  let ?C = "map Lambda (filter (\<lambda>f. lambda_type f = ty) lambdas)"
  have b: "length ?A \<le> b"
  proof (rule ccontr)
    assume "\<not> length ?A \<le> b"
    then have "b < length ?A" by simp
    then have "(?A @ ?B @ ?C) ! b = ?A ! b" "?A ! b \<in> set ?A"
      by (simp_all only: nth_append nth_mem if_True)
    then have "(?A @ ?B @ ?C) ! b \<in> set ?A"
      by (simp only:)
    with assms(4) v have "in_free ?fr (Var j)"
      by simp
    with assms(6) show False by simp
  qed
  have a: "a < length ?A"
  proof (rule ccontr)
    assume "\<not> a < length ?A"
    then have "(?A @ ?B @ ?C) ! a = (?B @ ?C) ! (a - length ?A)"
      by (simp only: nth_append if_False)
    moreover from \<open>\<not> a < length ?A\<close> assms(1) v have "a - length ?A < length (?B @ ?C)"
      by simp
    ultimately have "(?A @ ?B @ ?C) ! a \<in> set (?B @ ?C)"
      by (simp only: nth_mem)
    with assms(3) v have "Var i \<in> set ?B \<or> Var i \<in> set ?C"
      by simp
    with assms(5) show False by auto
  qed
  from a b show ?thesis by simp
qed

theorem free_indices_first_witness:
  "build_type_to_vars [plus1] 3 prog_two_lists TLIST = [Var 0, Var 2, Var 1] \<and>
   get_free_indices prog_two_lists 3 = {0, 2, 3, 4} \<and> (1::nat) < 2"
proof -
  have v: "build_type_to_vars [plus1] 3 prog_two_lists TLIST = [Var 0, Var 2, Var 1]"
    by code_simp
  have f: "get_free_indices prog_two_lists 3 = {0, 2, 3, 4}"
    by code_simp
  from free_indices_first [of 1 "[plus1]" 3 prog_two_lists TLIST 2 2 1] show ?thesis
    unfolding v f by simp
qed

subsection \<open>The enumerator\<close>

lemma set_arg_vars: "set (arg_vars xs) = {v. Var v \<in> set xs}"
  by (induction xs rule: arg_vars.induct) auto

lemma shuffle_from_length: "length (fst (shuffle_from rand i t xs)) = length xs"
  by (induction i arbitrary: t xs) (simp_all add: swap_def)

lemma shuffle_functions_fields:
  "res (shuffle_functions rand st) = res st"
  "progress_counter (shuffle_functions rand st) = progress_counter st"
  "length (ALL_FUNCTIONS (shuffle_functions rand st)) = length (ALL_FUNCTIONS st)"
proof -
  obtain fs t where
    s: "shuffle_from rand (length (ALL_FUNCTIONS st) - 1) (draws st) (ALL_FUNCTIONS st) =
        (fs, t)"
    by (cases "shuffle_from rand (length (ALL_FUNCTIONS st) - 1) (draws st) (ALL_FUNCTIONS st)")
  then have "length fs = length (ALL_FUNCTIONS st)"
    using shuffle_from_length [of rand "length (ALL_FUNCTIONS st) - 1" "draws st" "ALL_FUNCTIONS st"]
    by simp
  with s show "res (shuffle_functions rand st) = res st"
    "progress_counter (shuffle_functions rand st) = progress_counter st"
    "length (ALL_FUNCTIONS (shuffle_functions rand st)) = length (ALL_FUNCTIONS st)"
    by (simp_all add: shuffle_functions_def)
qed

lemma ext_refl: "ext sig L scoped st st"
  by (simp add: ext_def)

lemma ext_trans:
  "ext sig L scoped st st' \<Longrightarrow> ext sig L scoped st' st'' \<Longrightarrow> ext sig L scoped st st''"
  unfolding ext_def by (intro conjI ballI) (auto; blast)+

lemma ext_weaken: "ext sig L scoped st st' \<Longrightarrow> (scoped' \<Longrightarrow> scoped) \<Longrightarrow> ext sig L scoped' st st'"
  unfolding ext_def by blast

lemma ext_shuffle: "ext sig L scoped st (shuffle_functions rand st)"
  by (simp add: ext_def shuffle_functions_fields)

lemma well_scoped_append:
  assumes "well_scoped p" and "\<forall>v \<in> set (arg_vars args). v < length (input_types p) + len p"
  shows "well_scoped (p\<lparr>statements := statements p @ [(f, args)]\<rparr>)"
  unfolding well_scoped_def
proof (intro allI impI ballI)
  fix k i
  assume k: "k < length (statements (p\<lparr>statements := statements p @ [(f, args)]\<rparr>))"
    and i: "i \<in> set (arg_vars (snd (statements (p\<lparr>statements := statements p @ [(f, args)]\<rparr>) ! k)))"
  show "i < length (input_types (p\<lparr>statements := statements p @ [(f, args)]\<rparr>)) + k"
  proof (cases "k < length (statements p)")
    case True
    with i have "i \<in> set (arg_vars (snd (statements p ! k)))"
      by (simp add: nth_append)
    with assms(1) True show ?thesis
      by (simp add: well_scoped_def)
  next
    case False
    with k have "k = length (statements p)"
      by simp
    with i assms(2) show ?thesis
      by (simp add: len_def)
  qed
qed

lemma build_type_to_vars_scoped:
  assumes "v \<in> set (arg_vars (build_type_to_vars lambdas program_len p ty))"
  shows "v < length (input_types p) + len p"
proof -
  from build_type_to_vars_split [of lambdas program_len p ty] obtain vars where
    v: "build_type_to_vars lambdas program_len p ty =
       filter (in_free (get_free_indices p program_len)) vars @
       filter (\<lambda>x. \<not> in_free (get_free_indices p program_len) x) vars @
       map Lambda (filter (\<lambda>f. lambda_type f = ty) lambdas)"
    and s: "set vars = {Var i | i. i < length (var_types p) \<and> var_types p ! i = ty}"
    by blast
  from assms have "Var v \<in> set (build_type_to_vars lambdas program_len p ty)"
    by (simp add: set_arg_vars)
  then have "Var v \<in> set vars"
    unfolding v by auto
  with s have "v < length (var_types p)"
    by auto
  then show ?thesis
    by (simp add: var_types_def len_def)
qed

lemma product_lists_elems:
  "args \<in> set (product_lists xss) \<Longrightarrow> set args \<subseteq> (\<Union>xs \<in> set xss. set xs)"
proof (induction xss arbitrary: args)
  case Nil
  then show ?case by simp
next
  case (Cons xs xss)
  then obtain x rest where "args = x # rest" "x \<in> set xs" "rest \<in> set (product_lists xss)"
    by auto
  with Cons.IH [of rest] show ?case
    by auto
qed

lemma iterate_inputs_scoped:
  assumes "\<forall>ty. \<forall>v \<in> set (arg_vars (type_to_vars ty)). v < B"
    and "args \<in> set (iterate_inputs f type_to_vars)"
  shows "\<forall>v \<in> set (arg_vars args). v < B"
proof
  fix v assume "v \<in> set (arg_vars args)"
  then have "Var v \<in> set args"
    by (simp add: set_arg_vars)
  moreover from assms(2) obtain types where "args \<in> set (product_lists (map type_to_vars types))"
    by (auto simp: iterate_inputs_def Let_def)
  ultimately obtain ty where "Var v \<in> set (type_to_vars ty)"
    using product_lists_elems by fastforce
  with assms(1) show "v < B"
    by (auto simp: set_arg_vars)
qed

lemma helper_ext:
  shows "ext (input_types program) (max program_len (int (len program))) (well_scoped program)
           st0 (snd (helper rand lambdas num_programs program_len program st0))"
    and "ext (input_types program) (max program_len (int (len program) + 1))
           (well_scoped program \<and>
            (\<forall>ty. \<forall>v \<in> set (arg_vars (type_to_vars ty)).
               v < length (input_types program) + len program))
           st (snd (loop_functions rand lambdas num_programs program_len program type_to_vars
                      free_indxs n i st))"
    and "ext (input_types program) (max program_len (int (len program) + 1))
           (well_scoped program \<and>
            (\<forall>args \<in> set argss. \<forall>v \<in> set (arg_vars args).
               v < length (input_types program) + len program))
           st (snd (loop_args rand lambdas num_programs program_len program free_indxs func
                      argss st))"
proof (induction rand lambdas num_programs program_len program st0
    and rand lambdas num_programs program_len program type_to_vars free_indxs n i st
    and rand lambdas num_programs program_len program free_indxs func argss st
    rule: helper_loop_functions_loop_args.induct)
  case (1 rand lambdas num_programs program_len program st0)
  let ?x = "shuffle_functions rand st0"
  let ?sig = "input_types program"
  let ?L = "max program_len (int (len program))"
  have sh: "ext ?sig ?L (well_scoped program) st0 ?x"
    by (rule ext_shuffle)
  show ?case
  proof (cases "num_programs \<le> sint (progress_counter ?x)")
    case True
    then have "snd (helper rand lambdas num_programs program_len program st0) = ?x"
      by (subst helper.simps) (simp add: Let_def)
    with sh show ?thesis by simp
  next
    case quota: False
    show ?thesis
    proof (cases "program_len \<le> int (len program)")
      case True
      show ?thesis
      proof (cases "get_unused_indices program \<noteq> {} \<or> program \<in> res ?x")
        case rej: True
        with quota True have "snd (helper rand lambdas num_programs program_len program st0) = ?x"
          by (subst helper.simps) (simp add: Let_def)
        with sh show ?thesis by simp
      next
        case acc: False
        let ?y = "?x\<lparr>res := insert program (res ?x), progress_counter := progress_counter ?x + 1\<rparr>"
        from quota True acc
        have "snd (helper rand lambdas num_programs program_len program st0) = ?y"
          by (subst helper.simps) (simp add: Let_def)
        moreover have "ext ?sig ?L (well_scoped program) ?x ?y"
          using acc True by (auto simp: ext_def)
        ultimately show ?thesis
          using ext_trans [OF sh] by simp
      qed
    next
      case False
      let ?r = "loop_functions rand lambdas num_programs program_len program
          (build_type_to_vars lambdas program_len program)
          (get_free_indices program program_len) (length (ALL_FUNCTIONS ?x)) 0 ?x"
      from quota False
      have eq: "helper rand lambdas num_programs program_len program st0 = ?r"
        by (subst helper.simps) (simp add: Let_def)
      from False have L: "max program_len (int (len program) + 1) = ?L"
        by simp
      from "1.IH" [OF refl quota False]
      have "ext ?sig ?L
              (well_scoped program \<and>
               (\<forall>ty. \<forall>v \<in> set (arg_vars (build_type_to_vars lambdas program_len program ty)).
                  v < length (input_types program) + len program))
              ?x (snd ?r)"
        unfolding L .
      then have "ext ?sig ?L (well_scoped program) ?x (snd ?r)"
        by (rule ext_weaken) (simp add: build_type_to_vars_scoped)
      with sh show ?thesis
        unfolding eq by (rule ext_trans)
    qed
  qed
next
  case (2 rand lambdas num_programs program_len program type_to_vars free_indxs n i st)
  let ?sig = "input_types program"
  let ?L = "max program_len (int (len program) + 1)"
  let ?sc = "well_scoped program \<and>
            (\<forall>ty. \<forall>v \<in> set (arg_vars (type_to_vars ty)).
               v < length (input_types program) + len program)"
  show ?case
  proof (cases "i < n")
    case False
    then have "loop_functions rand lambdas num_programs program_len program type_to_vars
                      free_indxs n i st = (None, st)"
      by (subst loop_functions.simps) simp
    then show ?thesis
      by (simp add: ext_refl)
  next
    case True
    let ?f = "ALL_FUNCTIONS st ! i"
    let ?a = "loop_args rand lambdas num_programs program_len program free_indxs ?f
                (iterate_inputs ?f type_to_vars) st"
    from "2.IH"(1) [OF True refl]
    have "ext ?sig ?L
            (well_scoped program \<and>
             (\<forall>args \<in> set (iterate_inputs ?f type_to_vars). \<forall>v \<in> set (arg_vars args).
                v < length (input_types program) + len program))
            st (snd ?a)" .
    then have a: "ext ?sig ?L ?sc st (snd ?a)"
      by (rule ext_weaken) (use iterate_inputs_scoped in blast)
    show ?thesis
    proof (cases "fst ?a = Some True")
      case found: True
      with True have "loop_functions rand lambdas num_programs program_len program type_to_vars
                      free_indxs n i st = (Some True, snd ?a)"
        by (subst loop_functions.simps) (simp add: Let_def case_prod_beta)
      with a show ?thesis by simp
    next
      case nf: False
      let ?r = "loop_functions rand lambdas num_programs program_len program type_to_vars
                   free_indxs n (i + 1) (snd ?a)"
      from nf True have eq: "loop_functions rand lambdas num_programs program_len program
                      type_to_vars free_indxs n i st = ?r"
        by (subst loop_functions.simps) (simp add: Let_def case_prod_beta)
      have "ext ?sig ?L ?sc (snd ?a) (snd ?r)"
        using nf by (intro "2.IH"(2) [OF True refl refl, of "fst ?a"]) simp_all
      with a show ?thesis
        unfolding eq by (rule ext_trans)
    qed
  qed
next
  case (3 rand lambdas num_programs program_len program free_indxs f st)
  then show ?case
    by (simp add: ext_refl)
next
  case (4 rand lambdas num_programs program_len program free_indxs f args rest st)
  let ?sig = "input_types program"
  let ?L = "max program_len (int (len program) + 1)"
  let ?sc = "\<lambda>argss. well_scoped program \<and>
            (\<forall>args \<in> set argss. \<forall>v \<in> set (arg_vars args).
               v < length (input_types program) + len program)"
  let ?rest = "\<lambda>st. loop_args rand lambdas num_programs program_len program free_indxs f rest st"
  have weaken: "ext ?sig ?L (?sc (args # rest)) s s'" if "ext ?sig ?L (?sc rest) s s'" for s s'
    using that by (rule ext_weaken) simp
  show ?case
  proof (cases "filter (in_free free_indxs) args = []")
    case True
    with "4.IH"(1) [OF True] weaken show ?thesis
      by simp
  next
    case free: False
    show ?thesis
    proof (cases "(f, args) \<in> set (statements program)")
      case True
      with free "4.IH"(2) [OF free True] weaken show ?thesis
        by simp
    next
      case new: False
      let ?x = "program\<lparr>statements := statements program @ [(f, args)]\<rparr>"
      let ?h = "helper rand lambdas num_programs program_len ?x st"
      have "ext (input_types ?x) (max program_len (int (len ?x))) (well_scoped ?x) st (snd ?h)"
        by (rule "4.IH"(3) [OF free new refl])
      then have "ext ?sig ?L (well_scoped ?x) st (snd ?h)"
        by (simp add: len_def add.commute)
      then have h: "ext ?sig ?L (?sc (args # rest)) st (snd ?h)"
        by (rule ext_weaken) (simp add: well_scoped_append)
      show ?thesis
      proof (cases "fst ?h = Some True")
        case True
        with free new have "loop_args rand lambdas num_programs program_len program free_indxs f
                      (args # rest) st = (Some True, snd ?h)"
          by (simp add: Let_def case_prod_beta)
        with h show ?thesis by simp
      next
        case False
        with free new have eq: "loop_args rand lambdas num_programs program_len program
                      free_indxs f (args # rest) st = ?rest (snd ?h)"
          by (simp add: Let_def case_prod_beta)
        have "ext ?sig ?L (?sc rest) (snd ?h) (snd (?rest (snd ?h)))"
          using False by (intro "4.IH"(4) [OF free new refl refl, of "fst ?h"]) simp_all
        then have "ext ?sig ?L (?sc (args # rest)) (snd ?h) (snd (?rest (snd ?h)))"
          by (rule weaken)
        with h show ?thesis
          unfolding eq by (rule ext_trans)
      qed
    qed
  qed
qed


lemma restarts_0: "restarts rand lambdas num_programs program_len base 0 st = st"
  by (simp add: restarts_def)

lemma restarts_Suc:
  "restarts rand lambdas num_programs program_len base (Suc n) st =
   restarts rand lambdas num_programs program_len base n
     (snd (helper rand lambdas num_programs program_len base st))"
  by (simp only: restarts_def funpow_Suc_right o_apply)

lemma restart_loop_Some:
  assumes "restart_loop rand lambdas num_programs program_len base st = Some st'"
  shows "\<exists>n. st' = restarts rand lambdas num_programs program_len base n st \<and>
           (\<forall>j < n. sint (progress_counter
                        (restarts rand lambdas num_programs program_len base j st)) <
                     num_programs) \<and>
           num_programs \<le> sint (progress_counter st')"
proof (rule restart_loop.raw_induct
    [where P = "\<lambda>rand lambdas num_programs program_len base st st'.
       \<exists>n. st' = restarts rand lambdas num_programs program_len base n st \<and>
           (\<forall>j < n. sint (progress_counter
                        (restarts rand lambdas num_programs program_len base j st)) <
                     num_programs) \<and>
           num_programs \<le> sint (progress_counter st')", OF _ assms])
  fix loop rand lambdas num_programs program_len base st st'
  assume IH: "\<And>rand lambdas num_programs program_len base st st'.
      loop rand lambdas num_programs program_len base st = Some st' \<Longrightarrow>
      \<exists>n. st' = restarts rand lambdas num_programs program_len base n st \<and>
           (\<forall>j < n. sint (progress_counter
                        (restarts rand lambdas num_programs program_len base j st)) <
                     num_programs) \<and>
           num_programs \<le> sint (progress_counter st')"
    and step: "(if sint (progress_counter st) < num_programs
       then loop rand lambdas num_programs program_len base
              (snd (helper rand lambdas num_programs program_len base st))
       else Some st) = Some st'"
  let ?s = "snd (helper rand lambdas num_programs program_len base st)"
  show "\<exists>n. st' = restarts rand lambdas num_programs program_len base n st \<and>
           (\<forall>j < n. sint (progress_counter
                        (restarts rand lambdas num_programs program_len base j st)) <
                     num_programs) \<and>
           num_programs \<le> sint (progress_counter st')"
  proof (cases "sint (progress_counter st) < num_programs")
    case True
    with step have "loop rand lambdas num_programs program_len base ?s = Some st'"
      by simp
    from IH [OF this] obtain n where
      n: "st' = restarts rand lambdas num_programs program_len base n ?s"
      and below: "\<forall>j < n. sint (progress_counter
                        (restarts rand lambdas num_programs program_len base j ?s)) <
                     num_programs"
      and q: "num_programs \<le> sint (progress_counter st')"
      by blast
    from n have "st' = restarts rand lambdas num_programs program_len base (Suc n) st"
      by (simp only: restarts_Suc)
    moreover have "sint (progress_counter
                        (restarts rand lambdas num_programs program_len base j st)) <
                     num_programs" if "j < Suc n" for j
    proof (cases j)
      case 0
      with True show ?thesis
        by (simp add: restarts_0)
    next
      case (Suc k)
      with that below show ?thesis
        by (simp add: restarts_Suc)
    qed
    ultimately show ?thesis
      using q by blast
  next
    case False
    with step have "st' = st"
      by simp
    then have "st' = restarts rand lambdas num_programs program_len base 0 st"
      by (simp only: restarts_0)
    moreover from False \<open>st' = st\<close> have "num_programs \<le> sint (progress_counter st')"
      by simp
    ultimately show ?thesis
      by blast
  qed
qed



lemma restarts_ext:
  "ext (input_types base) (max program_len (int (len base))) (well_scoped base) st
     (restarts rand lambdas num_programs program_len base n st)"
proof (induction n arbitrary: st)
  case 0
  then show ?case
    by (simp add: restarts_0 ext_refl)
next
  case (Suc n)
  from helper_ext(1) [of base program_len st rand lambdas num_programs] Suc [of
      "snd (helper rand lambdas num_programs program_len base st)"]
  show ?case
    unfolding restarts_Suc by (rule ext_trans)
qed

subsection \<open>The counter and the result set\<close>











subsection \<open>What the worker returns\<close>

lemma unused_empty_referenced:
  assumes "get_unused_indices q = {}" and "well_scoped q"
    and "i < length (input_types q) + (len q - 1)"
  shows "\<exists>k < len q. i \<in> set (arg_vars (snd (statements q ! k))) \<and>
           i < length (input_types q) + k"
proof -
  from assms(1,3) have "i \<in> get_used_indices q"
    by (auto simp: get_unused_indices_def len_def)
  then obtain stmt where "stmt \<in> set (statements q)" "i \<in> set (arg_vars (snd stmt))"
    by (auto simp: get_used_indices_def)
  then obtain k where k: "k < length (statements q)" "statements q ! k = stmt"
    by (auto simp: in_set_conv_nth)
  with \<open>i \<in> set (arg_vars (snd stmt))\<close> assms(2) have "i < length (input_types q) + k"
    by (auto simp: well_scoped_def)
  with k \<open>i \<in> set (arg_vars (snd stmt))\<close> show ?thesis
    by (auto simp: len_def)
qed

lemma restarts_accepted:
  assumes "q \<in> res (restarts rand lambdas num_programs program_len
                      \<lparr>input_types = types, statements = []\<rparr> n (st\<lparr>res := {}\<rparr>))"
  shows "input_types q = types" and "get_unused_indices q = {}"
    and "int (len q) = max program_len 0" and "well_scoped q"
proof -
  let ?base = "\<lparr>input_types = types, statements = []\<rparr>"
  have "well_scoped ?base"
    by (simp add: well_scoped_def)
  with restarts_ext [of ?base program_len "st\<lparr>res := {}\<rparr>" rand lambdas num_programs n] assms
  show "input_types q = types" and "get_unused_indices q = {}"
    and "int (len q) = max program_len 0" and "well_scoped q"
    by (auto simp: ext_def len_def)
qed

lemma gen_program_worker_Some:
  assumes "gen_program_worker rand lambdas num_programs program_len types st = Some (programs, st')"
  shows "programs = res st'" and "num_programs \<le> sint (progress_counter st')"
    and "\<exists>n. st' = restarts rand lambdas num_programs program_len
                 \<lparr>input_types = types, statements = []\<rparr> n (st\<lparr>res := {}\<rparr>)"
proof -
  from assms have r: "restart_loop rand lambdas num_programs program_len
      \<lparr>input_types = types, statements = []\<rparr> (st\<lparr>res := {}\<rparr>) = Some st'" and p: "programs = res st'"
    by (auto simp: gen_program_worker_def)
  from p show "programs = res st'" .
  from restart_loop_Some [OF r] show "num_programs \<le> sint (progress_counter st')"
    and "\<exists>n. st' = restarts rand lambdas num_programs program_len
                 \<lparr>input_types = types, statements = []\<rparr> n (st\<lparr>res := {}\<rparr>)"
    by blast+
qed




text \<open>
  Claim C1. Every program in the result set of the enumerator, after any number of
  restarts and in particular when the worker returns, has no unused index: every index
  of an input or of an intermediate result is an argument of a statement, and that
  statement comes later than the variable.
\<close>

theorem accepted_programs_fully_used:
  "(\<forall>n. \<forall>p \<in> res (restarts rand lambdas num_programs program_len
                     \<lparr>input_types = types, statements = []\<rparr> n (st\<lparr>res := {}\<rparr>)).
      get_unused_indices p = {} \<and>
      (\<forall>i < length (input_types p) + (len p - 1).
         \<exists>k < len p. i \<in> set (arg_vars (snd (statements p ! k))) \<and>
           i < length (input_types p) + k)) \<and>
   (\<forall>programs st'.
      gen_program_worker rand lambdas num_programs program_len types st = Some (programs, st') \<longrightarrow>
      (\<forall>p \<in> programs.
         get_unused_indices p = {} \<and>
         (\<forall>i < length (input_types p) + (len p - 1).
            \<exists>k < len p. i \<in> set (arg_vars (snd (statements p ! k))) \<and>
              i < length (input_types p) + k)))"
proof -
  have acc: "get_unused_indices p = {} \<and>
      (\<forall>i < length (input_types p) + (len p - 1).
         \<exists>k < len p. i \<in> set (arg_vars (snd (statements p ! k))) \<and>
           i < length (input_types p) + k)"
    if "p \<in> res (restarts rand lambdas num_programs program_len
                     \<lparr>input_types = types, statements = []\<rparr> n (st\<lparr>res := {}\<rparr>))" for p n
    using restarts_accepted(2,4) [OF that] unused_empty_referenced [of p] by blast
  have "get_unused_indices p = {} \<and>
      (\<forall>i < length (input_types p) + (len p - 1).
         \<exists>k < len p. i \<in> set (arg_vars (snd (statements p ! k))) \<and>
           i < length (input_types p) + k)"
    if "gen_program_worker rand lambdas num_programs program_len types st = Some (programs, st')"
      and "p \<in> programs" for programs st' p
  proof -
    from gen_program_worker_Some [OF that(1)] that(2) obtain n where
      "p \<in> res (restarts rand lambdas num_programs program_len
                      \<lparr>input_types = types, statements = []\<rparr> n (st\<lparr>res := {}\<rparr>))"
      by blast
    then show ?thesis
      by (rule acc)
  qed
  with acc show ?thesis
    by blast
qed


lemma sample_state_res: "sample_state\<lparr>res := {}\<rparr> = sample_state"
  by (simp add: sample_state_def)

lemma sample_state_counter: "progress_counter sample_state = 0"
  by (simp add: sample_state_def)

lemma found_state_counter: "progress_counter found_state = 1"
  by (simp add: found_state_def)

lemma helper_sample_quota_1: "helper zero_draws [] 1 1 base_list sample_state = (Some True, found_state)"
  by code_simp



lemma restarts_sample: "restarts zero_draws [] 1 1 base_list 1 sample_state = found_state"
  by (simp add: restarts_def helper_sample_quota_1)

theorem accepted_programs_fully_used_witness:
  "gen_program_worker zero_draws [] 1 1 [TLIST] sample_state = Some ({prog_min}, found_state) \<and>
   get_unused_indices prog_min = {} \<and> len prog_min = 1 \<and> input_types prog_min = [TLIST] \<and>
   0 \<in> set (arg_vars (snd (statements prog_min ! 0)))"
proof -
  have "restart_loop zero_draws [] 1 1 base_list sample_state =
        restart_loop zero_draws [] 1 1 base_list found_state"
    by (subst restart_loop.simps) (simp add: helper_sample_quota_1 sample_state_counter)
  also have "\<dots> = Some found_state"
    by (subst restart_loop.simps) (simp add: found_state_counter)
  finally have "restart_loop zero_draws [] 1 1 \<lparr>input_types = [TLIST], statements = []\<rparr>
      (sample_state\<lparr>res := {}\<rparr>) = Some found_state"
    by (simp only: sample_state_res base_list_def)
  then have w: "gen_program_worker zero_draws [] 1 1 [TLIST] sample_state =
      Some ({prog_min}, found_state)"
    by (simp add: gen_program_worker_def found_state_def)
  have "prog_min \<in> {prog_min}"
    by simp
  with accepted_programs_fully_used [of zero_draws "[]" 1 1 "[TLIST]" sample_state] w
  have "get_unused_indices prog_min = {}"
    by blast
  moreover have "len prog_min = 1" "input_types prog_min = [TLIST]"
    "0 \<in> set (arg_vars (snd (statements prog_min ! 0)))"
    by (simp_all add: len_def prog_min_def)
  ultimately show ?thesis
    using w by simp
qed

subsection \<open>Termination of the restart loop\<close>




end
